theory Spec2Isabelle
  imports Main
begin

text \<open>
  A model of the node manager (\<open>node_manager/state_manager.py\<close>) and of the
  connection pool (\<open>contracts/w3_pool.py\<close>) of the Crynux node, with the properties
  that its specification claims for them. Asynchronous functions are modelled by
  what they do between two suspension points of a single task; the relay, the key
  library and the transports are the environment and enter as parameters.
\<close>

section \<open>Exceptions and results\<close>

text \<open>
  The Python exception classes that the node manager and the connection pool raise,
  catch or tell apart. \<open>KeyboardInterrupt\<close> and the cancellation class of the event
  loop derive from \<open>BaseException\<close> only; every other class derives from
  \<open>Exception\<close>. \<open>OtherException\<close> stands for any \<open>Exception\<close> that is none of the
  classes named here. An exception value carries its class and the text \<open>str(e)\<close>.
\<close>

datatype exc_class =
    KeyboardInterrupt | CancelledError
  | RelayError | AssertionError | ValueError | KeyError | IndexError | ConnectionClosed
  | OtherException

datatype exc = Exc (exc_cls: exc_class) (exc_str: string)

fun is_Exception :: "exc_class \<Rightarrow> bool" where
  "is_Exception KeyboardInterrupt = False"
| "is_Exception CancelledError = False"
| "is_Exception _ = True"

text \<open>
  A stateful, fallible operation on a state \<open>'s\<close>: it returns either the raised
  exception (\<open>Inl\<close>) or its value (\<open>Inr\<close>), together with the state it leaves.
\<close>

type_synonym ('s, 'a) op = "'s \<Rightarrow> (exc + 'a) \<times> 's"

definition ret :: "'a \<Rightarrow> ('s, 'a) op" where
  "ret a s = (Inr a, s)"

definition raise :: "exc \<Rightarrow> ('s, 'a) op" where
  "raise e s = (Inl e, s)"

definition then_do :: "('s, 'a) op \<Rightarrow> ('a \<Rightarrow> ('s, 'b) op) \<Rightarrow> ('s, 'b) op" where
  "then_do m f s = (case m s of (Inl e, s') \<Rightarrow> (Inl e, s') | (Inr a, s') \<Rightarrow> f a s')"

text \<open>The \<open>assert\<close> statement, with assertions enabled (Python run without \<open>-O\<close>).\<close>

definition py_assert :: "bool \<Rightarrow> string \<Rightarrow> ('s, unit) op" where
  "py_assert c msg = (if c then ret () else raise (Exc AssertionError msg))"

section \<open>models/node.py\<close>

datatype ChainNodeStatus = QUIT | AVAILABLE | BUSY | PENDING_PAUSE | PENDING_QUIT | PAUSED

datatype NodeStatus =
  Init | Running | Paused | Stopped | Error | PendingPause | PendingStop

text \<open>
  \<open>convert_node_status\<close>: the final \<open>else\<close> of the source raises \<open>ValueError\<close> for a
  value outside the enumeration; the six constructors of \<open>ChainNodeStatus\<close> are all
  the values the type has, so that branch has no input here.
\<close>

fun convert_node_status :: "ChainNodeStatus \<Rightarrow> NodeStatus" where
  "convert_node_status QUIT = Stopped"
| "convert_node_status AVAILABLE = Running"
| "convert_node_status BUSY = Running"
| "convert_node_status PAUSED = Paused"
| "convert_node_status PENDING_PAUSE = PendingPause"
| "convert_node_status PENDING_QUIT = PendingStop"

record NodeState =
  node_status :: NodeStatus
  node_message :: string
  init_message :: string

text \<open>
  The scores are floating-point numbers that the manager only copies; their type is
  left as the parameter \<open>'f\<close>.
\<close>

record 'f NodeScoreState =
  qos_score :: 'f
  staking_score :: 'f
  prob_weight :: 'f

text \<open>\<open>NodeInfo\<close>, with the fields that the node manager reads.\<close>

record 'f NodeInfo =
  info_status :: ChainNodeStatus
  info_qos_score :: 'f
  info_staking_score :: 'f
  info_prob_weight :: 'f

section \<open>The state cache and the relay\<close>

text \<open>
  Modelled from the spec: the transaction status enumeration and the manager state
  cache (\<open>models/tx.py\<close> and \<open>node_manager/state_cache\<close> apart from its abstract base
  class are not among the sources). The spec gives \<open>TxState {status \<in> {None, Pending,
  Success, Error}, message}\<close>, three cached values written only through setters, reads
  returning the latest written value, and overwrite as the only mutation.
\<close>

datatype TxStatus = TxNone | Pending | Success | TxError

record TxState =
  tx_status :: TxStatus
  tx_message :: string

datatype 'f cache_write =
    SetNodeState NodeStatus
  | SetTxState TxStatus string
  | SetNodeScoreState "'f NodeScoreState"

datatype relay_call =
    NodeGetNodeInfo
  | GetBalance
  | NodeJoin string int "string list" string int
  | NodeQuit
  | NodePause
  | NodeResume

text \<open>
  The relay is the environment of the manager: \<open>node_get_node_info r k\<close> is what the
  relay answers to the \<open>k\<close>-th call of \<open>node_get_node_info\<close> (an exception or a
  \<open>NodeInfo\<close>), and the other fields are its answers to the remaining calls.
\<close>

record 'f relay =
  node_get_node_info :: "nat \<Rightarrow> exc + 'f NodeInfo"
  get_balance :: "exc + int"
  node_join :: "exc option"
  node_quit :: "exc option"
  node_pause :: "exc option"
  node_resume :: "exc option"

text \<open>
  The state the manager works on: the three cached values, the sequence of cache
  writes and of relay calls made so far, the number of \<open>node_get_node_info\<close> calls
  made so far, and whether \<open>_cancel_scope\<close> is set.
\<close>

record 'f world =
  node_state :: NodeState
  tx_state :: TxState
  node_score_state :: "'f NodeScoreState"
  cache_writes :: "'f cache_write list"
  relay_calls :: "relay_call list"
  polls :: nat
  cancel_scope :: bool

text \<open>
  Modelled from the spec: the accessors of the manager state cache (\<open>get_node_state\<close>,
  \<open>get_tx_state\<close>, \<open>set_node_state\<close>, \<open>set_tx_state\<close>, \<open>set_node_score_state\<close>), whose
  class is not among the sources. A read returns the latest written value; a write
  overwrites the value, with empty messages where the caller passes none, and is
  recorded in \<open>cache_writes\<close>.
\<close>

definition get_node_state :: "('f world, NodeState) op" where
  "get_node_state w = (Inr (node_state w), w)"

definition get_tx_state :: "('f world, TxState) op" where
  "get_tx_state w = (Inr (tx_state w), w)"

definition set_node_state :: "NodeStatus \<Rightarrow> ('f world, unit) op" where
  "set_node_state s w =
     (Inr (), w\<lparr>node_state := \<lparr>node_status = s, node_message = [], init_message = []\<rparr>,
               cache_writes := cache_writes w @ [SetNodeState s]\<rparr>)"

definition set_tx_state :: "TxStatus \<Rightarrow> string \<Rightarrow> ('f world, unit) op" where
  "set_tx_state s msg w =
     (Inr (), w\<lparr>tx_state := \<lparr>tx_status = s, tx_message = msg\<rparr>,
               cache_writes := cache_writes w @ [SetTxState s msg]\<rparr>)"

definition set_node_score_state :: "'f NodeScoreState \<Rightarrow> ('f world, unit) op" where
  "set_node_score_state sc w =
     (Inr (), w\<lparr>node_score_state := sc,
               cache_writes := cache_writes w @ [SetNodeScoreState sc]\<rparr>)"

text \<open>The calls of the relay: each is recorded in \<open>relay_calls\<close> and gives the relay's answer.\<close>

definition relay_node_get_node_info :: "'f relay \<Rightarrow> ('f world, 'f NodeInfo) op" where
  "relay_node_get_node_info r w =
     (node_get_node_info r (polls w),
      w\<lparr>relay_calls := relay_calls w @ [NodeGetNodeInfo], polls := Suc (polls w)\<rparr>)"

definition relay_call_unit :: "relay_call \<Rightarrow> exc option \<Rightarrow> ('f world, unit) op" where
  "relay_call_unit c answer w =
     ((case answer of Some e \<Rightarrow> Inl e | None \<Rightarrow> Inr ()),
      w\<lparr>relay_calls := relay_calls w @ [c]\<rparr>)"

definition relay_get_balance :: "'f relay \<Rightarrow> ('f world, int) op" where
  "relay_get_balance r w = (get_balance r, w\<lparr>relay_calls := relay_calls w @ [GetBalance]\<rparr>)"

section \<open>node\_manager/state\_manager.py\<close>

definition get_node_status :: "'f relay \<Rightarrow> ('f world, NodeStatus) op" where
  "get_node_status r =
     then_do (relay_node_get_node_info r) (\<lambda>node_info.
       ret (convert_node_status (info_status node_info)))"

definition wait_for_running :: "'f relay \<Rightarrow> ('f world, unit) op" where
  "wait_for_running r =
     then_do (get_node_status r) (\<lambda>local_status.
     then_do (py_assert (local_status = Running) ''Node status on chain is not running.'') (\<lambda>_.
     then_do (set_node_state local_status) (\<lambda>_.
       set_tx_state Success [])))"

text \<open>
  \<open>_wrap_tx_error\<close>: \<open>KeyboardInterrupt\<close> and the cancellation class pass through;
  \<open>RelayError\<close>, \<open>AssertionError\<close> and \<open>ValueError\<close> are recorded in the transaction
  state and raised again; any other exception is logged and raised again. The write
  of the transaction state runs in a shielded five-second window, which is taken to
  be long enough for the cache write.
\<close>

definition tx_error_handler :: "(exc + 'a) \<times> 'f world \<Rightarrow> (exc + 'a) \<times> 'f world" where
  "tx_error_handler res =
     (case res of
        (Inr a, w') \<Rightarrow> (Inr a, w')
      | (Inl e, w') \<Rightarrow>
          if exc_cls e = KeyboardInterrupt then (Inl e, w')
          else if exc_cls e = CancelledError then (Inl e, w')
          else if exc_cls e \<in> {RelayError, AssertionError, ValueError}
          then (Inl e, snd (set_tx_state TxError (exc_str e) w'))
          else (Inl e, w'))"

definition wrap_tx_error :: "('f world, 'a) op \<Rightarrow> ('f world, 'a) op" where
  "wrap_tx_error body w = tx_error_handler (body w)"

text \<open>
  \<open>_wait_for_stop\<close> and \<open>_wait_for_pause\<close> loop until the relay reports the final
  status, which may never happen: the first argument bounds the number of
  iterations, and the result \<open>None\<close> says that the loop is still polling after that
  many, in the state returned with it.
\<close>

fun wait_for_stop_loop ::
  "nat \<Rightarrow> 'f relay \<Rightarrow> bool \<Rightarrow> 'f world \<Rightarrow> (exc + unit) option \<times> 'f world" where
  "wait_for_stop_loop 0 r pending w = (None, w)"
| "wait_for_stop_loop (Suc n) r pending w =
     (case get_node_status r w of
        (Inl e, w1) \<Rightarrow> (Some (Inl e), w1)
      | (Inr local_status, w1) \<Rightarrow>
          if local_status \<notin> {Stopped, PendingStop}
          then (Some (Inl (Exc AssertionError
                  ''Node status on chain is not stopped or pending.'')), w1)
          else
            let w2 = snd (set_node_state local_status w1);
                w3 = (if pending then snd (set_tx_state Success [] w2) else w2)
            in if local_status = Stopped then (Some (Inr ()), w3)
               else wait_for_stop_loop n r False w3)"

definition wait_for_stop ::
  "nat \<Rightarrow> 'f relay \<Rightarrow> 'f world \<Rightarrow> (exc + unit) option \<times> 'f world" where
  "wait_for_stop n r w = wait_for_stop_loop n r True w"

fun wait_for_pause_loop ::
  "nat \<Rightarrow> 'f relay \<Rightarrow> bool \<Rightarrow> 'f world \<Rightarrow> (exc + unit) option \<times> 'f world" where
  "wait_for_pause_loop 0 r pending w = (None, w)"
| "wait_for_pause_loop (Suc n) r pending w =
     (case get_node_status r w of
        (Inl e, w1) \<Rightarrow> (Some (Inl e), w1)
      | (Inr local_status, w1) \<Rightarrow>
          if local_status \<notin> {Paused, PendingPause}
          then (Some (Inl (Exc AssertionError
                  ''Node status on chain is not paused or pending'')), w1)
          else
            let w2 = snd (set_node_state local_status w1);
                w3 = (if pending then snd (set_tx_state Success [] w2) else w2)
            in if local_status = Paused then (Some (Inr ()), w3)
               else wait_for_pause_loop n r False w3)"

definition wait_for_pause ::
  "nat \<Rightarrow> 'f relay \<Rightarrow> 'f world \<Rightarrow> (exc + unit) option \<times> 'f world" where
  "wait_for_pause n r w = wait_for_pause_loop n r True w"

text \<open>
  The \<open>wait\<close> closures of \<open>stop\<close> and \<open>pause\<close> run the loop inside \<open>_wrap_tx_error\<close>,
  which acts once the loop has ended.
\<close>

definition wrap_tx_error_loop ::
  "(exc + 'a) option \<times> 'f world \<Rightarrow> (exc + 'a) option \<times> 'f world" where
  "wrap_tx_error_loop res =
     (case res of
        (None, w') \<Rightarrow> (None, w')
      | (Some x, w') \<Rightarrow> (Some (fst (tx_error_handler (x, w'))), snd (tx_error_handler (x, w'))))"

text \<open>
  One iteration of the loop of \<open>start_sync\<close>, up to its \<open>sleep\<close>.
\<close>

definition sync_tick :: "'f relay \<Rightarrow> ('f world, unit) op" where
  "sync_tick r =
     then_do (relay_node_get_node_info r) (\<lambda>node_info.
     let local_status = convert_node_status (info_status node_info) in
     then_do get_node_state (\<lambda>current.
     then_do (if local_status \<noteq> node_status current
              then set_node_state local_status else ret ()) (\<lambda>_.
       set_node_score_state
         \<lparr>qos_score = info_qos_score node_info,
          staking_score = info_staking_score node_info,
          prob_weight = info_prob_weight node_info\<rparr>)))"

text \<open>
  The loop of \<open>start_sync\<close> has no exit of its own: it ends when a call raises or
  when \<open>stop_sync\<close> cancels the scope. \<open>sync_loop n\<close> runs \<open>n\<close> iterations and is then
  cancelled in its \<open>sleep\<close>; the cancel scope absorbs its own cancellation, so
  \<open>start_sync\<close> returns normally then.
\<close>

fun sync_loop :: "nat \<Rightarrow> 'f relay \<Rightarrow> ('f world, unit) op" where
  "sync_loop 0 r w = (Inr (), w)"
| "sync_loop (Suc n) r w =
     (case sync_tick r w of
        (Inl e, w') \<Rightarrow> (Inl e, w')
      | (Inr _, w') \<Rightarrow> sync_loop n r w')"

definition start_sync :: "nat \<Rightarrow> 'f relay \<Rightarrow> ('f world, unit) op" where
  "start_sync n r w =
     (if cancel_scope w
      then (Inl (Exc AssertionError ''NodeStateManager has started synchronizing.''), w)
      else case sync_loop n r (w\<lparr>cancel_scope := True\<rparr>) of
             (res, w') \<Rightarrow> (res, w'\<lparr>cancel_scope := False\<rparr>))"

text \<open>
  \<open>Web3.to_wei(n, "ether")\<close> for an integer \<open>n\<close> (a library function): \<open>n\<close> times
  \<open>10 ^ 18\<close>, and \<open>ValueError\<close> when that is negative or above \<open>2 ^ 256 - 1\<close>.
\<close>

definition to_wei_ether :: "int \<Rightarrow> ('s, int) op" where
  "to_wei_ether n =
     (if n * 10 ^ 18 < 0 \<or> n * 10 ^ 18 > 2 ^ 256 - 1
      then raise (Exc ValueError ''Resulting wei value must be between 1 and 2**256 - 1'')
      else ret (n * 10 ^ 18))"

text \<open>\<open>".".join(str(v) for v in version)\<close>.\<close>

fun str_nat :: "nat \<Rightarrow> string" where
  "str_nat n =
     (if n < 10 then [''0123456789'' ! n]
      else str_nat (n div 10) @ [''0123456789'' ! (n mod 10)])"

definition str_int :: "int \<Rightarrow> string" where
  "str_int i = (if i < 0 then CHR ''-'' # str_nat (nat (- i)) else str_nat (nat i))"

fun join_str :: "string \<Rightarrow> string list \<Rightarrow> string" where
  "join_str sep [] = []"
| "join_str sep [x] = x"
| "join_str sep (x # y # ys) = x @ sep @ join_str sep (y # ys)"

text \<open>
  The lifecycle operations. \<open>staking_amount\<close> is what \<open>get_staking_amount()\<close>
  returns and \<open>download_models\<close> what \<open>download_model_cache.load_all()\<close> gives, as
  model identifiers. Each operation returns its \<open>wait\<close> closure, which is modelled
  by a function of its own.
\<close>

definition start ::
  "int \<Rightarrow> exc + string list \<Rightarrow> 'f relay \<Rightarrow> string \<Rightarrow> int \<Rightarrow> int list \<Rightarrow> ('f world, unit) op" where
  "start staking_amount download_models r gpu_name gpu_vram version =
     wrap_tx_error (
       then_do get_node_state (\<lambda>ns.
       then_do get_tx_state (\<lambda>ts.
       then_do (py_assert (node_status ns = Stopped)
                  ''Cannot start node. Node is not stopped.'') (\<lambda>_.
       then_do (py_assert (tx_status ts \<noteq> Pending)
                  ''Cannot start node. Last transaction is in pending.'') (\<lambda>_.
       then_do (to_wei_ether staking_amount) (\<lambda>staking_wei.
       then_do (relay_get_balance r) (\<lambda>balance.
       if balance < staking_wei
       then raise (Exc ValueError ''Node token balance is not enough to join.'')
       else
         then_do (case download_models of Inl e \<Rightarrow> raise e | Inr ids \<Rightarrow> ret ids) (\<lambda>model_ids.
         then_do (relay_call_unit
                    (NodeJoin gpu_name gpu_vram model_ids
                       (join_str ''.'' (map str_int version)) staking_wei)
                    (node_join r)) (\<lambda>_.
           set_tx_state Pending [])))))))))"

definition start_wait :: "'f relay \<Rightarrow> ('f world, unit) op" where
  "start_wait r = wrap_tx_error (wait_for_running r)"

definition stop :: "'f relay \<Rightarrow> ('f world, unit) op" where
  "stop r =
     wrap_tx_error (
       then_do get_node_state (\<lambda>ns.
       then_do get_tx_state (\<lambda>ts.
       then_do (py_assert (node_status ns = Running)
                  ''Cannot stop node. Node is not running.'') (\<lambda>_.
       then_do (py_assert (tx_status ts \<noteq> Pending)
                  ''Cannot start node. Last transaction is in pending.'') (\<lambda>_.
       then_do (relay_call_unit NodeQuit (node_quit r)) (\<lambda>_.
         set_tx_state Pending []))))))"

definition stop_wait ::
  "nat \<Rightarrow> 'f relay \<Rightarrow> 'f world \<Rightarrow> (exc + unit) option \<times> 'f world" where
  "stop_wait n r w = wrap_tx_error_loop (wait_for_stop n r w)"

definition pause :: "'f relay \<Rightarrow> ('f world, unit) op" where
  "pause r =
     wrap_tx_error (
       then_do get_node_state (\<lambda>ns.
       then_do get_tx_state (\<lambda>ts.
       then_do (py_assert (node_status ns = Running)
                  ''Cannot stop node. Node is not running.'') (\<lambda>_.
       then_do (py_assert (tx_status ts \<noteq> Pending)
                  ''Cannot start node. Last transaction is in pending.'') (\<lambda>_.
       then_do (relay_call_unit NodePause (node_pause r)) (\<lambda>_.
         set_tx_state Pending []))))))"

definition pause_wait ::
  "nat \<Rightarrow> 'f relay \<Rightarrow> 'f world \<Rightarrow> (exc + unit) option \<times> 'f world" where
  "pause_wait n r w = wrap_tx_error_loop (wait_for_pause n r w)"

definition resume :: "'f relay \<Rightarrow> ('f world, unit) op" where
  "resume r =
     wrap_tx_error (
       then_do get_node_state (\<lambda>ns.
       then_do get_tx_state (\<lambda>ts.
       then_do (py_assert (node_status ns = Paused)
                  ''Cannot stop node. Node is not running.'') (\<lambda>_.
       then_do (py_assert (tx_status ts \<noteq> Pending)
                  ''Cannot start node. Last transaction is in pending.'') (\<lambda>_.
       then_do (relay_call_unit NodeResume (node_resume r)) (\<lambda>_.
         set_tx_state Pending []))))))"

definition resume_wait :: "'f relay \<Rightarrow> ('f world, unit) op" where
  "resume_wait r = wrap_tx_error (wait_for_running r)"

section \<open>contracts/w3\_pool.py\<close>

datatype ProviderType = HTTP | WS | Other

subsection \<open>Strings and bytes\<close>

fun startswith :: "string \<Rightarrow> string \<Rightarrow> bool" where
  "startswith s [] = True"
| "startswith [] (p # ps) = False"
| "startswith (c # cs) (p # ps) = (c = p \<and> startswith cs ps)"

text \<open>
  \<open>_invalid_nonce_pattern = re.compile(r"nonce", re.IGNORECASE)\<close> and its \<open>search\<close>:
  the text holds the five letters in a row somewhere, in either case.
\<close>

definition lower :: "char \<Rightarrow> char" where
  "lower c =
     (case map_of (zip ''ABCDEFGHIJKLMNOPQRSTUVWXYZ'' ''abcdefghijklmnopqrstuvwxyz'') c of
        Some d \<Rightarrow> d | None \<Rightarrow> c)"

fun match_here :: "string \<Rightarrow> string \<Rightarrow> bool" where
  "match_here [] s = True"
| "match_here (p # ps) [] = False"
| "match_here (p # ps) (c # cs) = (lower c = lower p \<and> match_here ps cs)"

fun search_ignorecase :: "string \<Rightarrow> string \<Rightarrow> bool" where
  "search_ignorecase pat [] = match_here pat []"
| "search_ignorecase pat (c # cs) = (match_here pat (c # cs) \<or> search_ignorecase pat cs)"

definition invalid_nonce_pattern_search :: "string \<Rightarrow> bool" where
  "invalid_nonce_pattern_search s = search_ignorecase ''nonce'' s"

text \<open>
  \<open>bytes.fromhex\<close> (a library function): pairs of hexadecimal digits, with ASCII
  white space allowed before each pair; anything else raises \<open>ValueError\<close>, whose
  text names the position of the offending character (the length of the string when
  the second digit of a pair is missing). A byte is a number below 256.
\<close>

type_synonym bytes = "nat list"

definition hex_digit_value :: "char \<Rightarrow> nat option" where
  "hex_digit_value c =
     map_of (zip ''0123456789abcdefABCDEF''
               [0, 1, 2, 3, 4, 5, 6, 7, 8, 9, 10, 11, 12, 13, 14, 15, 10, 11, 12, 13, 14, 15]) c"

definition is_space :: "char \<Rightarrow> bool" where
  "is_space c = (c \<in> set [CHR '' '', CHR 0x09, CHR 0x0A, CHR 0x0B, CHR 0x0C, CHR 0x0D])"

definition fromhex_error :: "nat \<Rightarrow> exc" where
  "fromhex_error pos =
     Exc ValueError (''non-hexadecimal number found in fromhex() arg at position '' @ str_nat pos)"

fun fromhex_at :: "nat \<Rightarrow> string \<Rightarrow> exc + bytes" where
  "fromhex_at pos [] = Inr []"
| "fromhex_at pos [c] =
     (if is_space c then Inr []
      else case hex_digit_value c of
             None \<Rightarrow> Inl (fromhex_error pos)
           | Some hi \<Rightarrow> Inl (fromhex_error (pos + 1)))"
| "fromhex_at pos (c # d # ds) =
     (if is_space c then fromhex_at (pos + 1) (d # ds)
      else case hex_digit_value c of
             None \<Rightarrow> Inl (fromhex_error pos)
           | Some hi \<Rightarrow>
               (case hex_digit_value d of
                  None \<Rightarrow> Inl (fromhex_error (pos + 1))
                | Some lo \<Rightarrow>
                    (case fromhex_at (pos + 2) ds of
                       Inl e \<Rightarrow> Inl e
                     | Inr bs \<Rightarrow> Inr ((hi * 16 + lo) # bs))))"

definition bytes_fromhex :: "string \<Rightarrow> exc + bytes" where
  "bytes_fromhex s = fromhex_at 0 s"

text \<open>
  The key library (\<open>eth_keys\<close>) is a parameter: the constructor \<open>KeyAPI.PrivateKey\<close>,
  which validates the bytes, the public key of a private key, and the checksum
  address of a public key.
\<close>

record KeyAPI =
  PrivateKey :: "bytes \<Rightarrow> exc + bytes"
  public_key_of :: "bytes \<Rightarrow> bytes"
  to_checksum_address :: "bytes \<Rightarrow> string"

subsection \<open>The pool\<close>

text \<open>
  Guards are objects shared by the pool and by the caller that holds them, and a
  guard is known by its id, which \<open>_new_w3\<close> never gives twice. The dictionary
  \<open>_guards\<close> maps an id to the guard of that id, so it is kept as the list of its
  keys in insertion order; \<open>closed_guards\<close> is the store of the guards' own closed
  flags (\<open>_closed\<close>, or \<open>_session.closed\<close> for an HTTP guard), as the set of ids whose
  flag is set. \<open>waiters\<close> are the tasks suspended in \<open>_condition.wait()\<close>, and
  \<open>notified\<close> the tasks that a \<open>notify\<close> has released and that have not run yet.
\<close>

record W3Pool =
  privkey :: bytes
  pubkey :: bytes
  account :: string
  pool_size :: nat
  provider_path :: "string option"
  timeout :: int
  rps :: int
  provider_type :: ProviderType
  idle_pool :: "nat list"
  nonce :: "nat option"
  next_id :: nat
  guards :: "nat list"
  closed :: bool
  closed_guards :: "nat set"
  waiters :: "nat list"
  notified :: "nat list"

text \<open>
  \<open>__init__\<close>. \<open>provider\<close> says whether a provider object was passed. A negative
  \<open>pool_size\<close> makes \<open>deque(maxlen=...)\<close> raise \<open>ValueError\<close>.
\<close>

definition new_pool ::
  "bytes \<Rightarrow> bytes \<Rightarrow> string \<Rightarrow> int \<Rightarrow> string option \<Rightarrow> int \<Rightarrow> int \<Rightarrow> ProviderType
     \<Rightarrow> exc + W3Pool" where
  "new_pool key pub acct sz path tmo rate ty =
     (if sz < 0 then Inl (Exc ValueError ''maxlen must be non-negative'')
      else Inr \<lparr>privkey = key, pubkey = pub, account = acct, pool_size = nat sz,
                provider_path = path, timeout = tmo, rps = rate, provider_type = ty,
                idle_pool = [], nonce = None, next_id = 1, guards = [], closed = False,
                closed_guards = {}, waiters = [], notified = []\<rparr>)"

definition W3Pool_init ::
  "KeyAPI \<Rightarrow> string \<Rightarrow> bool \<Rightarrow> string option \<Rightarrow> int \<Rightarrow> int \<Rightarrow> int \<Rightarrow> exc + W3Pool" where
  "W3Pool_init api privkey_str provider path sz tmo rate =
     (let privkey_hex = (if startswith privkey_str ''0x'' then drop 2 privkey_str
                         else privkey_str)
      in case bytes_fromhex privkey_hex of
           Inl e \<Rightarrow> Inl e
         | Inr privkey_bytes \<Rightarrow>
             (case PrivateKey api privkey_bytes of
                Inl e \<Rightarrow> Inl e
              | Inr key \<Rightarrow>
                  let pub = public_key_of api key;
                      acct = to_checksum_address api pub
                  in if \<not> provider then
                       (case path of
                          None \<Rightarrow>
                            Inl (Exc ValueError ''provider and provider_path cannot be all None.'')
                        | Some url \<Rightarrow>
                            if startswith url ''http''
                            then new_pool key pub acct sz path tmo rate HTTP
                            else if startswith url ''ws''
                            then new_pool key pub acct sz path tmo rate WS
                            else Inl (Exc ValueError (''unsupported provider '' @ url)))
                     else new_pool key pub acct 1 path tmo rate Other))"

text \<open>
  \<open>deque.append\<close> on a deque with \<open>maxlen\<close>: the item is added on the right and, when
  the deque is then longer than \<open>maxlen\<close>, the leftmost item is dropped.
\<close>

definition deque_append :: "nat \<Rightarrow> 'a list \<Rightarrow> 'a \<Rightarrow> 'a list" where
  "deque_append maxlen xs x = (if length (xs @ [x]) > maxlen then tl (xs @ [x]) else xs @ [x])"

definition notify :: "nat \<Rightarrow> W3Pool \<Rightarrow> W3Pool" where
  "notify n p = p\<lparr>waiters := drop n (waiters p), notified := notified p @ take n (waiters p)\<rparr>"

definition notify_all :: "W3Pool \<Rightarrow> W3Pool" where
  "notify_all p = p\<lparr>waiters := [], notified := notified p @ waiters p\<rparr>"

definition on_guard_idle :: "W3Pool \<Rightarrow> nat \<Rightarrow> W3Pool" where
  "on_guard_idle p i =
     (if i \<in> set (guards p)
      then notify 1 (p\<lparr>idle_pool := deque_append (pool_size p) (idle_pool p) i\<rparr>)
      else p)"

definition on_guard_close :: "W3Pool \<Rightarrow> nat \<Rightarrow> W3Pool" where
  "on_guard_close p i =
     (if i \<in> set (guards p)
      then p\<lparr>guards := removeAll i (guards p),
             idle_pool := (if i \<in> set (idle_pool p) then remove1 i (idle_pool p)
                           else idle_pool p)\<rparr>
      else p)"

text \<open>
  \<open>close\<close> of the guard with id \<open>i\<close>, the same for the three guard classes up to the
  transport they shut down: nothing when the guard's flag is set, else the transport
  is shut down, the pool is told, and the flag is set. The shielded five-second
  window is taken to be long enough for that.
\<close>

definition guard_close :: "W3Pool \<Rightarrow> nat \<Rightarrow> W3Pool" where
  "guard_close p i =
     (if i \<notin> closed_guards p
      then (on_guard_close p i)\<lparr>closed_guards := insert i (closed_guards p)\<rparr>
      else p)"

text \<open>
  \<open>W3Guard.__aexit__\<close> for the guard with id \<open>i\<close>; \<open>exc_val\<close> is the exception that left
  the body, if any. The boolean is the value returned, which tells Python whether
  to suppress the exception.
\<close>

definition guard_aexit :: "W3Pool \<Rightarrow> nat \<Rightarrow> exc option \<Rightarrow> bool \<times> W3Pool" where
  "guard_aexit p i exc_val =
     (case exc_val of
        Some e \<Rightarrow>
          if exc_cls e = ConnectionClosed then (True, guard_close p i)
          else (False, on_guard_idle p i)
      | None \<Rightarrow> (False, on_guard_idle p i))"

text \<open>
  The statement \<open>async with guard as w3: body\<close>, given how the body ended: with a
  value, or with an exception. The statement ends with the body's value
  (\<open>Inr (Some v)\<close>), with the body's exception (\<open>Inl e\<close>), or normally with no value
  when \<open>__aexit__\<close> has suppressed the exception (\<open>Inr None\<close>).
\<close>

definition async_with_guard :: "W3Pool \<Rightarrow> nat \<Rightarrow> exc + 'a \<Rightarrow> (exc + 'a option) \<times> W3Pool" where
  "async_with_guard p i body =
     (case body of
        Inr v \<Rightarrow> (Inr (Some v), snd (guard_aexit p i None))
      | Inl e \<Rightarrow>
          (if fst (guard_aexit p i (Some e)) then Inr None else Inl e,
           snd (guard_aexit p i (Some e))))"

text \<open>
  \<open>get\<close>, for the task \<open>t\<close>. The call either returns a guard, raises, or suspends in
  \<open>_condition.wait()\<close>; a suspended task goes on in \<open>get_resume\<close> once it has been
  notified. \<open>new_w3\<close> is the exception with which \<open>_new_w3\<close> fails, if it does.

  The source asserts that the pool is not closed before it takes the condition lock,
  and taking the lock is a suspension point. \<open>get_body\<close> is the part of \<open>get\<close> under the
  lock, which does not look at the closed flag again before it builds a guard; \<open>get\<close>
  is the assertion followed at once by the body, as when no other task runs between
  the two. A call whose assertion has passed and whose body runs later, after other
  operations, is the body alone at that later state.
\<close>

datatype get_result = Guard nat | Raised exc | Waiting

definition get_wait :: "W3Pool \<Rightarrow> nat \<Rightarrow> get_result \<times> W3Pool" where
  "get_wait p t =
     (if idle_pool p = [] \<and> \<not> closed p then (Waiting, p\<lparr>waiters := waiters p @ [t]\<rparr>)
      else if closed p then (Raised (Exc ValueError ''w3 pool is closed''), p)
      else case idle_pool p of
             [] \<Rightarrow> (Raised (Exc IndexError ''pop from an empty deque''), p)
           | guard_id # rest \<Rightarrow>
               if guard_id \<in> set (guards p)
               then (Guard guard_id, p\<lparr>idle_pool := rest\<rparr>)
               else (Raised (Exc KeyError (str_nat guard_id)), p\<lparr>idle_pool := rest\<rparr>))"

definition get_body :: "W3Pool \<Rightarrow> nat \<Rightarrow> exc option \<Rightarrow> get_result \<times> W3Pool" where
  "get_body p t new_w3 =
     (if idle_pool p = [] \<and> length (guards p) < pool_size p then
        (case new_w3 of
           Some e \<Rightarrow> (Raised e, p)
         | None \<Rightarrow>
             (Guard (next_id p),
              p\<lparr>next_id := next_id p + 1,
                closed_guards := closed_guards p - {next_id p},
                guards := (if next_id p \<in> set (guards p) then guards p
                           else guards p @ [next_id p])\<rparr>))
      else get_wait p t)"

definition get :: "W3Pool \<Rightarrow> nat \<Rightarrow> exc option \<Rightarrow> get_result \<times> W3Pool" where
  "get p t new_w3 =
     (if closed p then (Raised (Exc AssertionError ''w3 pool is closed''), p)
      else get_body p t new_w3)"

definition get_resume :: "W3Pool \<Rightarrow> nat \<Rightarrow> get_result \<times> W3Pool" where
  "get_resume p t =
     (if t \<in> set (notified p) then get_wait (p\<lparr>notified := remove1 t (notified p)\<rparr>) t
      else (Waiting, p))"

text \<open>
  \<open>with_nonce\<close>. \<open>get_transaction_count\<close> is what the remote call for the pending
  transaction count of the account gives, and \<open>scope\<close> is the caller's block, which
  gets the nonce and ends with a value or with an exception.
\<close>

definition with_nonce :: "W3Pool \<Rightarrow> exc + nat \<Rightarrow> (nat \<Rightarrow> exc + 'a) \<Rightarrow> (exc + 'a) \<times> W3Pool" where
  "with_nonce p get_transaction_count scope =
     (if closed p then (Inl (Exc AssertionError ''w3 pool is closed''), p)
      else
        case (case nonce p of None \<Rightarrow> get_transaction_count | Some n \<Rightarrow> Inr n) of
          Inl e \<Rightarrow> (Inl e, p)
        | Inr n \<Rightarrow>
            (case scope n of
               Inr v \<Rightarrow> (Inr v, p\<lparr>nonce := Some (n + 1)\<rparr>)
             | Inl e \<Rightarrow>
                 if is_Exception (exc_cls e) then
                   (if invalid_nonce_pattern_search (exc_str e)
                    then (Inl e, p\<lparr>nonce := None\<rparr>)
                    else (Inl e, p\<lparr>nonce := Some n\<rparr>))
                 else (Inl e, p\<lparr>nonce := Some n\<rparr>)))"

text \<open>
  \<open>close\<close>. When the pool is not closed, the source takes a snapshot of the guard
  table, closes the guards of the snapshot one after the other, and then, under the
  condition lock, marks the pool closed and notifies all waiters. Each closing of a
  guard and the taking of the lock are suspension points, at which other tasks run.
  \<open>close_finish\<close> is the last part, under the lock; \<open>close\<close> is the whole call when
  no other task runs at its suspension points.
\<close>

definition close_finish :: "W3Pool \<Rightarrow> W3Pool" where
  "close_finish p = notify_all (p\<lparr>closed := True\<rparr>)"

definition close :: "W3Pool \<Rightarrow> W3Pool" where
  "close p =
     (if \<not> closed p
      then close_finish (fold (\<lambda>i q. guard_close q i) (guards p) p)
      else p)"

subsection \<open>Sequences of pool operations\<close>

text \<open>
  The operations by which tasks and guards change the pool, and the state after a
  sequence of them. Each operation runs under the pool's condition lock, so a
  sequence of them is an interleaving of the tasks. \<open>Get\<close> is a call of \<open>get\<close> whose
  body follows its assertion at once, and \<open>GetBody\<close> the body of a call whose
  assertion has passed earlier. \<open>Close\<close> is a call of \<open>close\<close> that no other task
  interrupts; the parts of a call that is interrupted are operations of their own:
  the closing of a single guard (\<open>GuardClose\<close>) and the final part (\<open>CloseFinish\<close>).
\<close>

datatype event =
    Get nat "exc option"
  | GetBody nat "exc option"
  | Resume nat
  | OnGuardIdle nat
  | OnGuardClose nat
  | GuardClose nat
  | GuardExit nat "exc option"
  | Close
  | CloseFinish

fun step :: "W3Pool \<Rightarrow> event \<Rightarrow> W3Pool" where
  "step p (Get t new_w3) = snd (get p t new_w3)"
| "step p (GetBody t new_w3) = snd (get_body p t new_w3)"
| "step p (Resume t) = snd (get_resume p t)"
| "step p (OnGuardIdle i) = on_guard_idle p i"
| "step p (OnGuardClose i) = on_guard_close p i"
| "step p (GuardClose i) = guard_close p i"
| "step p (GuardExit i exc_val) = snd (guard_aexit p i exc_val)"
| "step p Close = close p"
| "step p CloseFinish = close_finish p"

fun run :: "W3Pool \<Rightarrow> event list \<Rightarrow> W3Pool" where
  "run p [] = p"
| "run p (e # es) = run (step p e) es"

text \<open>
  A release of the guard \<open>i\<close> (by \<open>on_guard_idle\<close>, or by the exit of a guard's scope
  that leads to it) is orderly when \<open>i\<close> is not in the idle queue already, as is the
  case for a guard that is handed out. \<open>orderly p es\<close> says that every release in the
  sequence \<open>es\<close>, run from \<open>p\<close>, is orderly.
\<close>

fun releases :: "event \<Rightarrow> nat option" where
  "releases (OnGuardIdle i) = Some i"
| "releases (GuardExit i exc_val) =
     (case exc_val of
        Some e \<Rightarrow> if exc_cls e = ConnectionClosed then None else Some i
      | None \<Rightarrow> Some i)"
| "releases _ = None"

fun orderly :: "W3Pool \<Rightarrow> event list \<Rightarrow> bool" where
  "orderly p [] = True"
| "orderly p (e # es) =
     ((case releases e of Some i \<Rightarrow> i \<notin> set (idle_pool p) | None \<Rightarrow> True)
      \<and> orderly (step p e) es)"

text \<open>
  A call of \<open>close\<close> with other operations at its suspension points. \<open>snapshot\<close> is
  the list of guards that the call closes, and \<open>ess\<close> gives the operations of the
  other tasks: its first sequence runs before the first guard is closed, the next
  one after that guard is closed, and so on, the last one before the pool is marked
  closed; sequences that \<open>ess\<close> does not have are empty. \<open>close_guard_events\<close> is the
  sequence of operations up to the final part of the call, and \<open>close_interleaved\<close>
  the state the call leaves.
\<close>

fun close_guard_events :: "nat list \<Rightarrow> event list list \<Rightarrow> event list" where
  "close_guard_events [] ess = (case ess of [] \<Rightarrow> [] | es # _ \<Rightarrow> es)"
| "close_guard_events (i # snapshot) ess =
     (case ess of [] \<Rightarrow> [] | es # _ \<Rightarrow> es)
     @ GuardClose i # close_guard_events snapshot (tl ess)"

definition close_interleaved :: "W3Pool \<Rightarrow> event list list \<Rightarrow> W3Pool" where
  "close_interleaved p ess =
     (if \<not> closed p then close_finish (run p (close_guard_events (guards p) ess)) else p)"

text \<open>
  \<open>acquires e\<close>: the operation is a call of \<open>get\<close> or the body of one, the operations
  that can build a guard. \<open>in_flight e\<close>: the operation is the body of a call of \<open>get\<close>
  whose assertion has passed earlier.
\<close>

fun acquires :: "event \<Rightarrow> bool" where
  "acquires (Get t new_w3) = True"
| "acquires (GetBody t new_w3) = True"
| "acquires _ = False"

fun in_flight :: "event \<Rightarrow> bool" where
  "in_flight (GetBody t new_w3) = True"
| "in_flight _ = False"

section \<open>Expected cache writes, example relays and states\<close>

text \<open>
  The cache writes of the loop of \<open>_wait_for_stop\<close> for a sequence of observed
  statuses: each status is written to the node state, and the transaction state is
  set to \<open>Success\<close> after the first one when \<open>pending\<close> holds.
\<close>

fun stop_writes :: "bool \<Rightarrow> NodeStatus list \<Rightarrow> 'f cache_write list" where
  "stop_writes pending [] = []"
| "stop_writes pending (s # ss) =
     SetNodeState s # (if pending then [SetTxState Success []] else []) @ stop_writes False ss"

definition score_of :: "'f NodeInfo \<Rightarrow> 'f NodeScoreState" where
  "score_of i = \<lparr>qos_score = info_qos_score i, staking_score = info_staking_score i,
                 prob_weight = info_prob_weight i\<rparr>"

text \<open>
  The cache writes of the sync loop for a sequence of answers of the relay, from the
  cached status \<open>cur\<close>: the status when it differs from the cached one, and the
  scores each time.
\<close>

fun sync_writes :: "NodeStatus \<Rightarrow> 'f NodeInfo list \<Rightarrow> 'f cache_write list" where
  "sync_writes cur [] = []"
| "sync_writes cur (i # infos) =
     (if convert_node_status (info_status i) \<noteq> cur
      then [SetNodeState (convert_node_status (info_status i))] else [])
     @ [SetNodeScoreState (score_of i)]
     @ sync_writes (convert_node_status (info_status i)) infos"

text \<open>
  A relay that answers the first \<open>n\<close> status queries with the status \<open>s\<close> and the
  later ones with \<open>s'\<close>, and reports the balance \<open>b\<close>; and a manager state with a
  given cached node status and transaction status.
\<close>

definition info_of :: "ChainNodeStatus \<Rightarrow> int \<Rightarrow> int NodeInfo" where
  "info_of s q = \<lparr>info_status = s, info_qos_score = q, info_staking_score = 2,
                  info_prob_weight = 3\<rparr>"

definition relay_then :: "ChainNodeStatus \<Rightarrow> nat \<Rightarrow> ChainNodeStatus \<Rightarrow> int \<Rightarrow> int relay" where
  "relay_then s n s' b =
     \<lparr>node_get_node_info = (\<lambda>k. Inr (info_of (if k < n then s else s') (int k))),
      get_balance = Inr b, node_join = None, node_quit = None,
      node_pause = None, node_resume = None\<rparr>"

definition world_of :: "NodeStatus \<Rightarrow> TxStatus \<Rightarrow> int world" where
  "world_of ns ts =
     \<lparr>node_state = \<lparr>node_status = ns, node_message = [], init_message = []\<rparr>,
      tx_state = \<lparr>tx_status = ts, tx_message = []\<rparr>,
      node_score_state = \<lparr>qos_score = 0, staking_score = 0, prob_weight = 0\<rparr>,
      cache_writes = [], relay_calls = [], polls = 0, cancel_scope = False\<rparr>"

section \<open>Pool invariants and an example pool\<close>

text \<open>
  \<open>cap_inv\<close>: the guard table has no more than \<open>pool_size\<close> entries (and, as a
  dictionary, no key twice). \<open>idle_inv\<close>: the idle queue holds no id twice, and only
  ids of the guard table. \<open>fresh_inv\<close>: the ids of the guard table are below
  \<open>next_id\<close>, and no guard of the table has its closed flag set. \<open>closed_inv\<close>: a
  closed pool has no waiter. \<open>gone i\<close>: the id \<open>i\<close> has been given out and is neither
  in the guard table nor in the idle queue. \<open>shut i\<close>: the id \<open>i\<close> has been given out,
  the guard has its closed flag set and is not in the guard table.
\<close>

definition cap_inv :: "W3Pool \<Rightarrow> bool" where
  "cap_inv p = (distinct (guards p) \<and> length (guards p) \<le> pool_size p)"

definition idle_inv :: "W3Pool \<Rightarrow> bool" where
  "idle_inv p = (distinct (idle_pool p) \<and> set (idle_pool p) \<subseteq> set (guards p))"

definition fresh_inv :: "W3Pool \<Rightarrow> bool" where
  "fresh_inv p =
     ((\<forall>i\<in>set (guards p). i < next_id p) \<and> set (guards p) \<inter> closed_guards p = {})"

definition closed_inv :: "W3Pool \<Rightarrow> bool" where
  "closed_inv p = (closed p \<longrightarrow> waiters p = [])"

definition shut :: "nat \<Rightarrow> W3Pool \<Rightarrow> bool" where
  "shut i p = (i \<in> closed_guards p \<and> i \<notin> set (guards p) \<and> i < next_id p)"

definition gone :: "nat \<Rightarrow> W3Pool \<Rightarrow> bool" where
  "gone i p = (i \<notin> set (guards p) \<and> i \<notin> set (idle_pool p) \<and> i < next_id p)"

text \<open>
  An example: a private key in hexadecimal, a stand-in for the key library that
  accepts keys of 32 bytes, and the pool of size \<open>n\<close> that \<open>W3Pool_init\<close> builds from
  them for an HTTP provider path.
\<close>

definition example_key :: string where
  "example_key = ''4c0883a69102937d6231471b5dbb6204fe5129617082792ae468d01a3f362318''"

definition example_api :: KeyAPI where
  "example_api =
     \<lparr>PrivateKey = (\<lambda>b. if length b = 32 then Inr b
                         else Inl (Exc OtherException ''Unexpected private key length'')),
      public_key_of = (\<lambda>b. b @ b),
      to_checksum_address = (\<lambda>b. ''0x2c7536E3605D9C16a7a3D7b1898e529396a65c23'')\<rparr>"

definition example_pool :: "nat \<Rightarrow> W3Pool" where
  "example_pool n =
     \<lparr>privkey = [76, 8, 131, 166, 145, 2, 147, 125, 98, 49, 71, 27, 93, 187, 98, 4,
                 254, 81, 41, 97, 112, 130, 121, 42, 228, 104, 208, 26, 63, 54, 35, 24],
      pubkey = [76, 8, 131, 166, 145, 2, 147, 125, 98, 49, 71, 27, 93, 187, 98, 4,
                254, 81, 41, 97, 112, 130, 121, 42, 228, 104, 208, 26, 63, 54, 35, 24,
                76, 8, 131, 166, 145, 2, 147, 125, 98, 49, 71, 27, 93, 187, 98, 4,
                254, 81, 41, 97, 112, 130, 121, 42, 228, 104, 208, 26, 63, 54, 35, 24],
      account = ''0x2c7536E3605D9C16a7a3D7b1898e529396a65c23'',
      pool_size = n, provider_path = Some ''http://localhost:8545'', timeout = 10, rps = 10,
      provider_type = HTTP, idle_pool = [], nonce = None, next_id = 1, guards = [],
      closed = False, closed_guards = {}, waiters = [], notified = []\<rparr>"


section \<open>The node manager: theorems\<close>

lemmas op_defs = then_do_def ret_def raise_def py_assert_def get_node_state_def get_tx_state_def
  set_node_state_def set_tx_state_def set_node_score_state_def relay_node_get_node_info_def
  relay_call_unit_def relay_get_balance_def wrap_tx_error_def tx_error_handler_def
  get_node_status_def

text \<open>
  C8. \<open>stop\<close> with a cached node status other than \<open>Running\<close> fails with the
  precondition assertion and makes no relay call; \<open>start\<close> with a cached node status
  other than \<open>Stopped\<close>, or with the cached transaction status \<open>Pending\<close>, fails with
  the precondition assertion and makes no relay call.
\<close>

theorem precondition_enforcement:
  "(node_status (node_state w) \<noteq> Running \<longrightarrow>
      fst (stop r w) = Inl (Exc AssertionError ''Cannot stop node. Node is not running.'')
      \<and> relay_calls (snd (stop r w)) = relay_calls w)
   \<and> (node_status (node_state w) \<noteq> Stopped \<or> tx_status (tx_state w) = Pending \<longrightarrow>
      fst (start sa dm r g v ver w) =
        Inl (Exc AssertionError
              (if node_status (node_state w) \<noteq> Stopped
               then ''Cannot start node. Node is not stopped.''
               else ''Cannot start node. Last transaction is in pending.''))
      \<and> relay_calls (snd (start sa dm r g v ver w)) = relay_calls w)"
  by (simp add: stop_def start_def op_defs)

theorem precondition_enforcement_witness:
  "fst (stop (relay_then QUIT 0 QUIT 0) (world_of Stopped Pending))
     = Inl (Exc AssertionError ''Cannot stop node. Node is not running.'')
   \<and> relay_calls (snd (stop (relay_then QUIT 0 QUIT 0) (world_of Stopped Pending))) = []
   \<and> fst (start 400 (Inr []) (relay_then QUIT 0 QUIT 0) ''gpu'' 8 [2, 0, 0] (world_of Stopped Pending))
     = Inl (Exc AssertionError ''Cannot start node. Last transaction is in pending.'')
   \<and> relay_calls (snd (start 400 (Inr []) (relay_then QUIT 0 QUIT 0) ''gpu'' 8 [2, 0, 0]
        (world_of Stopped Pending))) = []"
  using precondition_enforcement [where w = "world_of Stopped Pending"
      and r = "relay_then QUIT 0 QUIT 0" and sa = 400 and dm = "Inr []" and g = "''gpu''"
      and v = 8 and ver = "[2, 0, 0]"]
  by (simp add: world_of_def)

text \<open>
  C4, as amended. When the preconditions of \<open>start\<close> hold and the balance is below
  the staking amount, \<open>start\<close> fails with the insufficient-balance \<open>ValueError\<close>, the
  only relay call is the balance query (no join is submitted), and the cached
  transaction status is set to \<open>Error\<close> with the text of the error; it is never set
  to \<open>Pending\<close>.
\<close>

theorem start_insufficient_balance:
  assumes "node_status (node_state w) = Stopped" and "tx_status (tx_state w) \<noteq> Pending"
    and "0 \<le> sa" and "sa * 10 ^ 18 \<le> 2 ^ 256 - 1"
    and "get_balance r = Inr b" and "b < sa * 10 ^ 18"
  shows "start sa dm r g v ver w =
     (Inl (Exc ValueError ''Node token balance is not enough to join.''),
      w\<lparr>tx_state := \<lparr>tx_status = TxError,
                      tx_message = ''Node token balance is not enough to join.''\<rparr>,
        cache_writes := cache_writes w @
           [SetTxState TxError ''Node token balance is not enough to join.''],
        relay_calls := relay_calls w @ [GetBalance]\<rparr>)"
  using assms by (simp add: start_def op_defs to_wei_ether_def)

theorem start_insufficient_balance_witness:
  "start 400 (Inr []) (relay_then QUIT 0 QUIT 0) ''gpu'' 8 [2, 0, 0] (world_of Stopped Success) =
     (Inl (Exc ValueError ''Node token balance is not enough to join.''),
      (world_of Stopped Success)
       \<lparr>tx_state := \<lparr>tx_status = TxError,
                      tx_message = ''Node token balance is not enough to join.''\<rparr>,
        cache_writes := [SetTxState TxError ''Node token balance is not enough to join.''],
        relay_calls := [GetBalance]\<rparr>)"
  using start_insufficient_balance [where w = "world_of Stopped Success" and sa = 400
      and r = "relay_then QUIT 0 QUIT 0" and b = 0 and dm = "Inr []" and g = "''gpu''"
      and v = 8 and ver = "[2, 0, 0]"]
  by (simp add: relay_then_def world_of_def)

text \<open>
  The claim C4 as stated fails: with the cached transaction status \<open>Success\<close>, the
  balance 0 and the staking amount 400, \<open>start\<close> fails with the insufficient-balance
  error and leaves the cached transaction status \<open>Error\<close>, not \<open>Success\<close>.
\<close>

theorem start_insufficient_balance_counterexample:
  "fst (start 400 (Inr []) (relay_then QUIT 0 QUIT 0) ''gpu'' 8 [2, 0, 0] (world_of Stopped Success))
     = Inl (Exc ValueError ''Node token balance is not enough to join.'')
   \<and> tx_status (tx_state (world_of Stopped Success)) = Success
   \<and> tx_status (tx_state (snd (start 400 (Inr []) (relay_then QUIT 0 QUIT 0) ''gpu'' 8 [2, 0, 0]
         (world_of Stopped Success)))) = TxError"
  by (simp add: start_def op_defs to_wei_ether_def relay_then_def world_of_def)

text \<open>
  C1, as amended. The \<open>wait\<close> of \<open>start\<close> (and of \<open>resume\<close>, which is the same
  operation) queries the relay exactly once. When the status maps to \<open>Running\<close> it
  writes \<open>Running\<close> to the node state and sets the transaction status to \<open>Success\<close>;
  when it maps to any other status, the wait fails with the assertion error, which
  the error wrapper records as transaction status \<open>Error\<close>.
\<close>

theorem wait_for_running_single_poll:
  assumes "node_get_node_info r (polls w) = Inr info"
  shows "(convert_node_status (info_status info) = Running \<longrightarrow>
            start_wait r w =
              (Inr (), w\<lparr>node_state := \<lparr>node_status = Running, node_message = [],
                                         init_message = []\<rparr>,
                         tx_state := \<lparr>tx_status = Success, tx_message = []\<rparr>,
                         cache_writes := cache_writes w @
                            [SetNodeState Running, SetTxState Success []],
                         relay_calls := relay_calls w @ [NodeGetNodeInfo],
                         polls := Suc (polls w)\<rparr>))
       \<and> (convert_node_status (info_status info) \<noteq> Running \<longrightarrow>
            start_wait r w =
              (Inl (Exc AssertionError ''Node status on chain is not running.''),
               w\<lparr>tx_state := \<lparr>tx_status = TxError,
                               tx_message = ''Node status on chain is not running.''\<rparr>,
                 cache_writes := cache_writes w @
                    [SetTxState TxError ''Node status on chain is not running.''],
                 relay_calls := relay_calls w @ [NodeGetNodeInfo],
                 polls := Suc (polls w)\<rparr>))
       \<and> resume_wait r w = start_wait r w"
  using assms by (simp add: start_wait_def resume_wait_def wait_for_running_def op_defs)

theorem wait_for_running_single_poll_witness:
  "start_wait (relay_then BUSY 0 BUSY 0) (world_of Stopped Pending) =
     (Inr (), (world_of Stopped Pending)
        \<lparr>node_state := \<lparr>node_status = Running, node_message = [], init_message = []\<rparr>,
         tx_state := \<lparr>tx_status = Success, tx_message = []\<rparr>,
         cache_writes := [SetNodeState Running, SetTxState Success []],
         relay_calls := [NodeGetNodeInfo],
         polls := 1\<rparr>)
   \<and> fst (start_wait (relay_then PENDING_QUIT 0 PENDING_QUIT 0) (world_of Stopped Pending)) =
       Inl (Exc AssertionError ''Node status on chain is not running.'')"
  using wait_for_running_single_poll [where r = "relay_then BUSY 0 BUSY 0"
      and w = "world_of Stopped Pending" and info = "info_of BUSY 0"]
    wait_for_running_single_poll [where r = "relay_then PENDING_QUIT 0 PENDING_QUIT 0"
      and w = "world_of Stopped Pending" and info = "info_of PENDING_QUIT 0"]
  by (simp add: relay_then_def world_of_def info_of_def)

text \<open>
  The claim C1 as stated fails: the wait does not poll until the status maps to
  \<open>Running\<close>. Whichever of the four statuses that do not map to \<open>Running\<close> the relay
  reports first, before it reports \<open>AVAILABLE\<close>, the wait ends at that first answer
  with the assertion error, after one query and with the transaction status \<open>Error\<close>.
\<close>

theorem wait_for_running_counterexample:
  "(fst (start_wait (relay_then PAUSED 1 AVAILABLE 0)
          (world_of Paused Pending))
      = Inl (Exc AssertionError ''Node status on chain is not running.'')
    \<and> polls (snd (start_wait (relay_then PAUSED 1 AVAILABLE 0)
          (world_of Paused Pending))) = 1
    \<and> tx_status (tx_state (snd (start_wait
          (relay_then PAUSED 1 AVAILABLE 0)
          (world_of Paused Pending)))) = TxError)
   \<and> (fst (start_wait (relay_then QUIT 1 AVAILABLE 0)
          (world_of Stopped Pending))
      = Inl (Exc AssertionError ''Node status on chain is not running.'')
    \<and> polls (snd (start_wait (relay_then QUIT 1 AVAILABLE 0)
          (world_of Stopped Pending))) = 1)
   \<and> (fst (start_wait (relay_then PENDING_PAUSE 1 AVAILABLE 0)
          (world_of Stopped Pending))
      = Inl (Exc AssertionError ''Node status on chain is not running.'')
    \<and> polls (snd (start_wait (relay_then PENDING_PAUSE 1 AVAILABLE 0)
          (world_of Stopped Pending))) = 1)
   \<and> (fst (start_wait (relay_then PENDING_QUIT 1 AVAILABLE 0)
          (world_of Stopped Pending))
      = Inl (Exc AssertionError ''Node status on chain is not running.'')
    \<and> polls (snd (start_wait (relay_then PENDING_QUIT 1 AVAILABLE 0)
          (world_of Stopped Pending))) = 1)"
  by (simp add: start_wait_def wait_for_running_def op_defs relay_then_def world_of_def info_of_def)

lemma stop_loop_pending:
  assumes "\<forall>k<n. \<exists>info. node_get_node_info r (polls w + k) = Inr info
                  \<and> convert_node_status (info_status info) = PendingStop"
  shows "\<exists>w'. wait_for_stop_loop (n + m) r p w = wait_for_stop_loop m r (p \<and> n = 0) w'
     \<and> polls w' = polls w + n
     \<and> cache_writes w' = cache_writes w @ stop_writes p (replicate n PendingStop)
     \<and> tx_state w' = (if p \<and> 0 < n then \<lparr>tx_status = Success, tx_message = []\<rparr> else tx_state w)
     \<and> node_state w' = (if 0 < n then \<lparr>node_status = PendingStop, node_message = [], init_message = []\<rparr>
                         else node_state w)"
  using assms
proof (induction n arbitrary: w p)
  case 0
  have "wait_for_stop_loop (0 + m) r p w = wait_for_stop_loop m r (p \<and> (0::nat) = 0) w" by simp
  then show ?case by (intro exI [of _ w]) simp
next
  case (Suc n)
  from Suc.prems obtain info where i0: "node_get_node_info r (polls w) = Inr info"
    and c0: "convert_node_status (info_status info) = PendingStop"
    by (metis add.right_neutral zero_less_Suc)
  define w1 where "w1 = w\<lparr>relay_calls := relay_calls w @ [NodeGetNodeInfo], polls := Suc (polls w)\<rparr>"
  define w3 where "w3 = (let w2 = snd (set_node_state PendingStop w1)
                         in if p then snd (set_tx_state Success [] w2) else w2)"
  have step: "wait_for_stop_loop (Suc n + m) r p w = wait_for_stop_loop (n + m) r False w3"
    using i0 c0 by (simp add: op_defs w1_def w3_def Let_def)
  have pw3: "polls w3 = Suc (polls w)"
    by (simp add: w3_def w1_def op_defs Let_def)
  have "\<forall>k<n. \<exists>info. node_get_node_info r (polls w3 + k) = Inr info
                  \<and> convert_node_status (info_status info) = PendingStop"
  proof (intro allI impI)
    fix k assume "k < n"
    then have "Suc k < Suc n" by simp
    with Suc.prems obtain info where "node_get_node_info r (polls w + Suc k) = Inr info"
      "convert_node_status (info_status info) = PendingStop" by blast
    then show "\<exists>info. node_get_node_info r (polls w3 + k) = Inr info
                  \<and> convert_node_status (info_status info) = PendingStop"
      by (simp add: pw3)
  qed
  from Suc.IH [OF this, of False] obtain w' where
    w': "wait_for_stop_loop (n + m) r False w3 = wait_for_stop_loop m r False w'"
       "polls w' = polls w3 + n"
       "cache_writes w' = cache_writes w3 @ stop_writes False (replicate n PendingStop)"
       "tx_state w' = tx_state w3"
       "node_state w' = (if 0 < n then \<lparr>node_status = PendingStop, node_message = [], init_message = []\<rparr>
                         else node_state w3)"
    by auto
  have "wait_for_stop_loop (Suc n + m) r p w = wait_for_stop_loop m r (p \<and> Suc n = 0) w'"
    using step w'(1) by simp
  moreover have "polls w' = polls w + Suc n" using w'(2) pw3 by simp
  moreover have "cache_writes w' = cache_writes w @ stop_writes p (replicate (Suc n) PendingStop)"
    using w'(3) by (simp add: w3_def w1_def op_defs Let_def)
  moreover have "tx_state w' = (if p \<and> 0 < Suc n then \<lparr>tx_status = Success, tx_message = []\<rparr> else tx_state w)"
    using w'(4) by (simp add: w3_def w1_def op_defs Let_def)
  moreover have "node_state w' = (if 0 < Suc n then \<lparr>node_status = PendingStop, node_message = [], init_message = []\<rparr>
                         else node_state w)"
    using w'(5) by (simp add: w3_def w1_def op_defs Let_def)
  ultimately show ?case by blast
qed

lemma stop_writes_append:
  "stop_writes p (xs @ ys) = stop_writes p xs @ stop_writes (p \<and> xs = []) ys"
  by (induction xs arbitrary: p) auto

lemma stop_loop_only_stopped:
  "fst (wait_for_stop_loop j r p w) = Some (Inr ()) \<Longrightarrow>
     node_status (node_state (snd (wait_for_stop_loop j r p w))) = Stopped"
proof (induction j arbitrary: p w)
  case 0
  then show ?case by simp
next
  case (Suc j)
  show ?case
  proof (cases "node_get_node_info r (polls w)")
    case (Inl e)
    with Suc.prems show ?thesis by (simp add: op_defs)
  next
    case (Inr info)
    show ?thesis
    proof (cases "convert_node_status (info_status info) = PendingStop")
      case True
      with Inr Suc.prems Suc.IH show ?thesis by (simp add: op_defs Let_def)
    next
      case False
      with Inr Suc.prems show ?thesis by (simp add: op_defs Let_def split: if_splits)
    qed
  qed
qed

text \<open>
  C7. Let the relay answer the next \<open>n\<close> status queries with statuses that map to
  \<open>PendingStop\<close>, and the one after with \<open>info\<close>. If \<open>info\<close> maps to \<open>Stopped\<close>, the
  \<open>wait\<close> of \<open>stop\<close> returns after \<open>n + 1\<close> queries, having written every observed
  status to the node state and having set the transaction status to \<open>Success\<close> once,
  after the first observation. If \<open>info\<close> maps to a status other than \<open>Stopped\<close> and
  \<open>PendingStop\<close>, the wait fails with the assertion error. After the \<open>n\<close> pending
  observations the wait is still polling, and the transaction status is \<open>Success\<close>
  already. Whenever the wait returns normally, the node state is \<open>Stopped\<close>.
\<close>

theorem stop_wait_polls_until_stopped:
  assumes pend: "\<forall>k<n. \<exists>i. node_get_node_info r (polls w + k) = Inr i
                  \<and> convert_node_status (info_status i) = PendingStop"
      and last: "node_get_node_info r (polls w + n) = Inr info"
  shows
   "(convert_node_status (info_status info) = Stopped \<longrightarrow>
        fst (stop_wait (Suc n + m) r w) = Some (Inr ())
      \<and> node_status (node_state (snd (stop_wait (Suc n + m) r w))) = Stopped
      \<and> tx_status (tx_state (snd (stop_wait (Suc n + m) r w))) = Success
      \<and> cache_writes (snd (stop_wait (Suc n + m) r w)) =
          cache_writes w @ stop_writes True (replicate n PendingStop @ [Stopped])
      \<and> polls (snd (stop_wait (Suc n + m) r w)) = polls w + Suc n)
    \<and> (convert_node_status (info_status info) \<notin> {Stopped, PendingStop} \<longrightarrow>
        fst (stop_wait (Suc n + m) r w) =
          Some (Inl (Exc AssertionError ''Node status on chain is not stopped or pending.''))
      \<and> tx_status (tx_state (snd (stop_wait (Suc n + m) r w))) = TxError
      \<and> polls (snd (stop_wait (Suc n + m) r w)) = polls w + Suc n)
    \<and> fst (stop_wait n r w) = None
    \<and> cache_writes (snd (stop_wait n r w)) =
          cache_writes w @ stop_writes True (replicate n PendingStop)
    \<and> (0 < n \<longrightarrow> tx_status (tx_state (snd (stop_wait n r w))) = Success
              \<and> node_status (node_state (snd (stop_wait n r w))) = PendingStop)
    \<and> (\<forall>j. fst (stop_wait j r w) = Some (Inr ()) \<longrightarrow>
             node_status (node_state (snd (stop_wait j r w))) = Stopped)"
proof -
  from stop_loop_pending [OF pend, of "Suc m" True] obtain w' where
    w': "wait_for_stop_loop (n + Suc m) r True w = wait_for_stop_loop (Suc m) r (n = 0) w'"
       "polls w' = polls w + n"
       "cache_writes w' = cache_writes w @ stop_writes True (replicate n PendingStop)"
       "tx_state w' = (if 0 < n then \<lparr>tx_status = Success, tx_message = []\<rparr> else tx_state w)"
    by auto
  have eq: "stop_wait (Suc n + m) r w = wrap_tx_error_loop (wait_for_stop_loop (Suc m) r (n = 0) w')"
    using w'(1) by (simp add: stop_wait_def wait_for_stop_def)
  have i': "node_get_node_info r (polls w') = Inr info" using last w'(2) by simp
  have A: "convert_node_status (info_status info) = Stopped \<longrightarrow>
        fst (stop_wait (Suc n + m) r w) = Some (Inr ())
      \<and> node_status (node_state (snd (stop_wait (Suc n + m) r w))) = Stopped
      \<and> tx_status (tx_state (snd (stop_wait (Suc n + m) r w))) = Success
      \<and> cache_writes (snd (stop_wait (Suc n + m) r w)) =
          cache_writes w @ stop_writes True (replicate n PendingStop @ [Stopped])
      \<and> polls (snd (stop_wait (Suc n + m) r w)) = polls w + Suc n"
    unfolding eq using i' w'(2,3,4)
    by (simp add: op_defs wrap_tx_error_loop_def Let_def stop_writes_append)
  have B: "convert_node_status (info_status info) \<notin> {Stopped, PendingStop} \<longrightarrow>
        fst (stop_wait (Suc n + m) r w) =
          Some (Inl (Exc AssertionError ''Node status on chain is not stopped or pending.''))
      \<and> tx_status (tx_state (snd (stop_wait (Suc n + m) r w))) = TxError
      \<and> polls (snd (stop_wait (Suc n + m) r w)) = polls w + Suc n"
    unfolding eq using i' w'(2)
    by (simp add: op_defs wrap_tx_error_loop_def Let_def)
  from stop_loop_pending [OF pend, of 0 True] obtain w'' where
    w'': "wait_for_stop_loop n r True w = (None, w'')"
       "cache_writes w'' = cache_writes w @ stop_writes True (replicate n PendingStop)"
       "tx_state w'' = (if 0 < n then \<lparr>tx_status = Success, tx_message = []\<rparr> else tx_state w)"
       "node_state w'' = (if 0 < n then \<lparr>node_status = PendingStop, node_message = [], init_message = []\<rparr>
                         else node_state w)"
    by auto
  have C: "fst (stop_wait n r w) = None
    \<and> cache_writes (snd (stop_wait n r w)) =
          cache_writes w @ stop_writes True (replicate n PendingStop)
    \<and> (0 < n \<longrightarrow> tx_status (tx_state (snd (stop_wait n r w))) = Success
              \<and> node_status (node_state (snd (stop_wait n r w))) = PendingStop)"
    using w'' by (simp add: stop_wait_def wait_for_stop_def wrap_tx_error_loop_def)
  have D: "\<forall>j. fst (stop_wait j r w) = Some (Inr ()) \<longrightarrow>
             node_status (node_state (snd (stop_wait j r w))) = Stopped"
  proof (intro allI impI)
    fix j assume h: "fst (stop_wait j r w) = Some (Inr ())"
    obtain x w2 where l: "wait_for_stop_loop j r True w = (x, w2)" by (cases "wait_for_stop_loop j r True w")
    from h l have "x = Some (Inr ())"
      by (cases x) (auto simp: stop_wait_def wait_for_stop_def wrap_tx_error_loop_def tx_error_handler_def
            split: sum.splits if_splits)
    with l stop_loop_only_stopped [of j r True w] show
      "node_status (node_state (snd (stop_wait j r w))) = Stopped"
      by (simp add: stop_wait_def wait_for_stop_def wrap_tx_error_loop_def tx_error_handler_def)
  qed
  from A B C D show ?thesis by blast
qed


theorem stop_wait_polls_until_stopped_witness:
  "fst (stop_wait 3 (relay_then PENDING_QUIT 2 QUIT 0)
         (world_of Running Pending)) = Some (Inr ())
   \<and> tx_status (tx_state (snd (stop_wait 3
         (relay_then PENDING_QUIT 2 QUIT 0)
         (world_of Running Pending)))) = Success
   \<and> cache_writes (snd (stop_wait 3 (relay_then PENDING_QUIT 2 QUIT 0)
         (world_of Running Pending))) =
       [SetNodeState PendingStop, SetTxState Success [], SetNodeState PendingStop,
        SetNodeState Stopped]
   \<and> fst (stop_wait 2 (relay_then PENDING_QUIT 2 QUIT 0)
         (world_of Running Pending)) = None
   \<and> tx_status (tx_state (snd (stop_wait 2
         (relay_then PENDING_QUIT 2 QUIT 0)
         (world_of Running Pending)))) = Success"
  using stop_wait_polls_until_stopped [where n = 2 and m = 0
      and r = "relay_then PENDING_QUIT 2 QUIT 0"
      and w = "world_of Running Pending" and info = "info_of QUIT 2"]
  by (simp add: relay_then_def world_of_def info_of_def numeral_2_eq_2 numeral_3_eq_3)

lemma sync_tick_eq:
  assumes "node_get_node_info r (polls w) = Inr info"
  shows "sync_tick r w =
     (Inr (),
      w\<lparr>node_state :=
          (if convert_node_status (info_status info) \<noteq> node_status (node_state w)
           then \<lparr>node_status = convert_node_status (info_status info),
                 node_message = [], init_message = []\<rparr>
           else node_state w),
        node_score_state := score_of info,
        cache_writes := cache_writes w @
          (if convert_node_status (info_status info) \<noteq> node_status (node_state w)
           then [SetNodeState (convert_node_status (info_status info))] else [])
          @ [SetNodeScoreState (score_of info)],
        relay_calls := relay_calls w @ [NodeGetNodeInfo],
        polls := Suc (polls w)\<rparr>)"
  using assms by (simp add: sync_tick_def op_defs score_of_def Let_def)

lemma sync_loop_writes:
  assumes "\<forall>k<length infos. node_get_node_info r (polls w + k) = Inr (infos ! k)"
  shows "fst (sync_loop (length infos) r w) = Inr ()
       \<and> cache_writes (snd (sync_loop (length infos) r w)) =
           cache_writes w @ sync_writes (node_status (node_state w)) infos
       \<and> cancel_scope (snd (sync_loop (length infos) r w)) = cancel_scope w"
  using assms
proof (induction infos arbitrary: w)
  case Nil
  then show ?case by simp
next
  case (Cons i infos)
  from Cons.prems have i0: "node_get_node_info r (polls w) = Inr i" by force
  obtain w' where t: "sync_tick r w = (Inr (), w')" and pw: "polls w' = Suc (polls w)"
    and cw: "cache_writes w' = cache_writes w @
          (if convert_node_status (info_status i) \<noteq> node_status (node_state w)
           then [SetNodeState (convert_node_status (info_status i))] else [])
          @ [SetNodeScoreState (score_of i)]"
    and ns: "node_status (node_state w') = convert_node_status (info_status i)"
    and cs: "cancel_scope w' = cancel_scope w"
    using sync_tick_eq [OF i0] by simp
  have "\<forall>k<length infos. node_get_node_info r (polls w' + k) = Inr (infos ! k)"
  proof (intro allI impI)
    fix k assume "k < length infos"
    then have "Suc k < length (i # infos)" by simp
    with Cons.prems have "node_get_node_info r (polls w + Suc k) = Inr ((i # infos) ! Suc k)" by blast
    then show "node_get_node_info r (polls w' + k) = Inr (infos ! k)" by (simp add: pw)
  qed
  from Cons.IH [OF this] t cw ns cs show ?case by simp
qed

text \<open>
  C9. Let the relay answer the next status queries with the node infos \<open>infos\<close>, one for
  each tick. The sync loop, run for these ticks, writes for every tick the mapped
  status when it differs from the cached status at that tick, and only then, and
  writes the scores of that tick whether the status has changed or not.
\<close>

theorem sync_writes_status_on_change_scores_always:
  assumes "\<forall>k<length infos. node_get_node_info r (polls w + k) = Inr (infos ! k)"
      and "\<not> cancel_scope w"
  shows "fst (start_sync (length infos) r w) = Inr ()
       \<and> cache_writes (snd (start_sync (length infos) r w)) =
           cache_writes w @ sync_writes (node_status (node_state w)) infos
       \<and> (\<forall>info. node_get_node_info r (polls w) = Inr info \<longrightarrow>
            cache_writes (snd (sync_tick r w)) = cache_writes w @
              (if convert_node_status (info_status info) \<noteq> node_status (node_state w)
               then [SetNodeState (convert_node_status (info_status info))] else [])
              @ [SetNodeScoreState (score_of info)])"
proof -
  let ?w = "w\<lparr>cancel_scope := True\<rparr>"
  have "\<forall>k<length infos. node_get_node_info r (polls ?w + k) = Inr (infos ! k)"
    using assms(1) by simp
  from sync_loop_writes [OF this] assms(2)
  have "fst (start_sync (length infos) r w) = Inr ()
       \<and> cache_writes (snd (start_sync (length infos) r w)) =
           cache_writes w @ sync_writes (node_status (node_state w)) infos"
    by (cases "sync_loop (length infos) r (w\<lparr>cancel_scope := True\<rparr>)") (simp add: start_sync_def)
  moreover have "\<forall>info. node_get_node_info r (polls w) = Inr info \<longrightarrow>
            cache_writes (snd (sync_tick r w)) = cache_writes w @
              (if convert_node_status (info_status info) \<noteq> node_status (node_state w)
               then [SetNodeState (convert_node_status (info_status info))] else [])
              @ [SetNodeScoreState (score_of info)]"
    by (simp add: sync_tick_eq)
  ultimately show ?thesis by blast
qed


theorem sync_writes_status_on_change_scores_always_witness:
  "fst (start_sync 2 (relay_then BUSY 1 QUIT 0) (world_of Running TxNone))
     = Inr ()
   \<and> cache_writes (snd (start_sync 2 (relay_then BUSY 1 QUIT 0)
        (world_of Running TxNone))) =
       [SetNodeScoreState (score_of (info_of BUSY 0)),
        SetNodeState Stopped,
        SetNodeScoreState (score_of (info_of QUIT 1))]"
  using sync_writes_status_on_change_scores_always
    [where infos = "[info_of BUSY 0, info_of QUIT 1]"
      and r = "relay_then BUSY 1 QUIT 0"
      and w = "world_of Running TxNone"]
  by (simp add: relay_then_def world_of_def info_of_def less_Suc_eq numeral_2_eq_2)

section \<open>The connection pool: theorems\<close>

lemmas pool_defs = on_guard_idle_def on_guard_close_def guard_close_def guard_aexit_def
  get_def get_body_def get_wait_def get_resume_def notify_def notify_all_def deque_append_def
  close_finish_def

lemma length_removeAll_le: "length (removeAll x xs) \<le> length xs"
  by (simp add: removeAll_filter_not_eq)

lemma cap_inv_on_guard_idle: "cap_inv p \<Longrightarrow> cap_inv (on_guard_idle p i)"
  by (simp add: cap_inv_def pool_defs)

lemma cap_inv_on_guard_close:
  assumes "cap_inv p"
  shows "cap_inv (on_guard_close p i)"
proof -
  from assms have "length (guards p) \<le> pool_size p"
    by (simp add: cap_inv_def)
  from order_trans [OF length_removeAll_le this]
  have "length (removeAll i (guards p)) \<le> pool_size p" .
  with assms show ?thesis
    by (simp add: cap_inv_def on_guard_close_def distinct_removeAll)
qed

lemma cap_inv_guard_close: "cap_inv p \<Longrightarrow> cap_inv (guard_close p i)"
  using cap_inv_on_guard_close [of p i] by (simp add: guard_close_def cap_inv_def)

lemma size_guard_close [simp]: "pool_size (guard_close p i) = pool_size p"
  by (simp add: pool_defs)

lemma cap_inv_fold_close:
  "cap_inv p \<Longrightarrow> cap_inv (fold (\<lambda>i q. guard_close q i) xs p)"
  by (induction xs arbitrary: p) (auto intro: cap_inv_guard_close)

lemma cap_inv_close_finish: "cap_inv p \<Longrightarrow> cap_inv (close_finish p)"
  by (simp add: close_finish_def notify_all_def cap_inv_def)

lemma cap_inv_close: "cap_inv p \<Longrightarrow> cap_inv (close p)"
  using cap_inv_fold_close [of p "guards p"]
  by (simp add: close_def cap_inv_close_finish)

lemma cap_inv_get_wait: "cap_inv p \<Longrightarrow> cap_inv (snd (get_wait p t))"
  by (simp add: cap_inv_def get_wait_def split: list.splits)

lemma cap_inv_get_body: "cap_inv p \<Longrightarrow> cap_inv (snd (get_body p t x))"
  using cap_inv_get_wait [of p t]
  by (auto simp: cap_inv_def get_body_def split: option.splits)

lemma cap_inv_get: "cap_inv p \<Longrightarrow> cap_inv (snd (get p t x))"
  by (simp add: get_def cap_inv_get_body)

lemma cap_inv_get_resume: "cap_inv p \<Longrightarrow> cap_inv (snd (get_resume p t))"
  using cap_inv_get_wait [of "p\<lparr>notified := remove1 t (notified p)\<rparr>" t]
  by (simp add: get_resume_def cap_inv_def)

lemma cap_inv_guard_aexit: "cap_inv p \<Longrightarrow> cap_inv (snd (guard_aexit p i x))"
  by (simp add: guard_aexit_def cap_inv_on_guard_idle cap_inv_guard_close split: option.splits)

lemma cap_inv_step: "cap_inv p \<Longrightarrow> cap_inv (step p e)"
  by (cases e) (simp_all add: cap_inv_get cap_inv_get_body cap_inv_get_resume
      cap_inv_on_guard_idle cap_inv_on_guard_close cap_inv_guard_close cap_inv_guard_aexit
      cap_inv_close cap_inv_close_finish)

lemma cap_inv_run: "cap_inv p \<Longrightarrow> cap_inv (run p es)"
  by (induction es arbitrary: p) (auto intro: cap_inv_step)

lemma size_fold_close [simp]: "pool_size (fold (\<lambda>i q. guard_close q i) xs p) = pool_size p"
  by (induction xs arbitrary: p) auto

lemma size_close [simp]: "pool_size (close p) = pool_size p"
  by (simp add: close_def close_finish_def notify_all_def)

lemma size_step [simp]: "pool_size (step p e) = pool_size p"
  by (cases e) (auto simp: on_guard_idle_def on_guard_close_def guard_aexit_def
      get_def get_body_def get_wait_def get_resume_def notify_def close_finish_def
      notify_all_def split: option.splits list.splits)

lemma size_run [simp]: "pool_size (run p es) = pool_size p"
  by (induction es arbitrary: p) auto

lemma set_tl_subset: "set (tl xs) \<subseteq> set xs"
  by (cases xs) auto

lemma idle_inv_on_guard_idle:
  assumes "idle_inv p" and "i \<notin> set (idle_pool p)"
  shows "idle_inv (on_guard_idle p i)"
proof (cases "i \<in> set (guards p)")
  case False
  with assms show ?thesis by (simp add: on_guard_idle_def)
next
  case True
  let ?ys = "idle_pool p @ [i]"
  from assms have d: "distinct ?ys" and s: "set ?ys \<subseteq> set (guards p)"
    using True by (auto simp: idle_inv_def)
  have "distinct (tl ?ys)" using d by (rule distinct_tl)
  moreover have "set (tl ?ys) \<subseteq> set (guards p)"
    using set_tl_subset [of ?ys] s by blast
  ultimately show ?thesis
    using d s True by (simp add: on_guard_idle_def notify_def deque_append_def idle_inv_def)
qed

lemma idle_inv_on_guard_close:
  assumes "idle_inv p"
  shows "idle_inv (on_guard_close p i)"
proof -
  from assms have d: "distinct (idle_pool p)" and s: "set (idle_pool p) \<subseteq> set (guards p)"
    by (simp_all add: idle_inv_def)
  have "set (remove1 i (idle_pool p)) = set (idle_pool p) - {i}"
    using d by (rule set_remove1_eq)
  with s have "set (remove1 i (idle_pool p)) \<subseteq> set (removeAll i (guards p))"
    by auto
  moreover have "i \<notin> set (idle_pool p) \<Longrightarrow> set (idle_pool p) \<subseteq> set (removeAll i (guards p))"
    using s by auto
  ultimately show ?thesis
    using d s by (simp add: on_guard_close_def idle_inv_def)
qed

lemma idle_inv_guard_close: "idle_inv p \<Longrightarrow> idle_inv (guard_close p i)"
  using idle_inv_on_guard_close [of p i] by (simp add: guard_close_def idle_inv_def)

lemma idle_inv_fold_close:
  "idle_inv p \<Longrightarrow> idle_inv (fold (\<lambda>i q. guard_close q i) xs p)"
  by (induction xs arbitrary: p) (auto intro: idle_inv_guard_close)

lemma idle_inv_close_finish: "idle_inv p \<Longrightarrow> idle_inv (close_finish p)"
  by (simp add: close_finish_def notify_all_def idle_inv_def)

lemma idle_inv_close: "idle_inv p \<Longrightarrow> idle_inv (close p)"
  using idle_inv_fold_close [of p "guards p"]
  by (simp add: close_def idle_inv_close_finish)

lemma idle_inv_get_wait: "idle_inv p \<Longrightarrow> idle_inv (snd (get_wait p t))"
  by (auto simp: idle_inv_def get_wait_def split: list.splits)

lemma idle_inv_get_body: "idle_inv p \<Longrightarrow> idle_inv (snd (get_body p t x))"
  using idle_inv_get_wait [of p t]
  by (auto simp: idle_inv_def get_body_def split: option.splits)

lemma idle_inv_get: "idle_inv p \<Longrightarrow> idle_inv (snd (get p t x))"
  by (simp add: get_def idle_inv_get_body)

lemma idle_inv_get_resume: "idle_inv p \<Longrightarrow> idle_inv (snd (get_resume p t))"
  using idle_inv_get_wait [of "p\<lparr>notified := remove1 t (notified p)\<rparr>" t]
  by (simp add: get_resume_def idle_inv_def)

lemma idle_inv_step:
  assumes "idle_inv p" and "case releases e of Some i \<Rightarrow> i \<notin> set (idle_pool p) | None \<Rightarrow> True"
  shows "idle_inv (step p e)"
proof (cases e)
  case (GuardExit i x)
  with assms show ?thesis
    by (auto simp: guard_aexit_def idle_inv_on_guard_idle idle_inv_guard_close
        split: option.splits if_splits)
qed (use assms in \<open>simp_all add: idle_inv_get idle_inv_get_body idle_inv_get_resume
      idle_inv_on_guard_idle idle_inv_on_guard_close idle_inv_guard_close idle_inv_close
      idle_inv_close_finish\<close>)

lemma idle_inv_run: "idle_inv p \<Longrightarrow> orderly p es \<Longrightarrow> idle_inv (run p es)"
  by (induction es arbitrary: p) (auto intro: idle_inv_step)

lemma fresh_inv_on_guard_idle: "fresh_inv p \<Longrightarrow> fresh_inv (on_guard_idle p i)"
  by (simp add: fresh_inv_def on_guard_idle_def notify_def)

lemma fresh_inv_on_guard_close: "fresh_inv p \<Longrightarrow> fresh_inv (on_guard_close p i)"
  by (auto simp: fresh_inv_def on_guard_close_def)

lemma fresh_inv_guard_close: "fresh_inv p \<Longrightarrow> fresh_inv (guard_close p i)"
  by (auto simp: fresh_inv_def on_guard_close_def guard_close_def)

lemma fresh_inv_fold_close:
  "fresh_inv p \<Longrightarrow> fresh_inv (fold (\<lambda>i q. guard_close q i) xs p)"
  by (induction xs arbitrary: p) (auto intro: fresh_inv_guard_close)

lemma fresh_inv_close_finish: "fresh_inv p \<Longrightarrow> fresh_inv (close_finish p)"
  by (simp add: close_finish_def notify_all_def fresh_inv_def)

lemma fresh_inv_close: "fresh_inv p \<Longrightarrow> fresh_inv (close p)"
  using fresh_inv_fold_close [of p "guards p"]
  by (simp add: close_def fresh_inv_close_finish)

lemma fresh_inv_get_wait: "fresh_inv p \<Longrightarrow> fresh_inv (snd (get_wait p t))"
  by (auto simp: fresh_inv_def get_wait_def split: list.splits)

lemma fresh_inv_get_body: "fresh_inv p \<Longrightarrow> fresh_inv (snd (get_body p t x))"
  using fresh_inv_get_wait [of p t]
  by (auto simp: fresh_inv_def get_body_def split: option.splits)

lemma fresh_inv_get: "fresh_inv p \<Longrightarrow> fresh_inv (snd (get p t x))"
  by (simp add: get_def fresh_inv_get_body)

lemma fresh_inv_get_resume: "fresh_inv p \<Longrightarrow> fresh_inv (snd (get_resume p t))"
  using fresh_inv_get_wait [of "p\<lparr>notified := remove1 t (notified p)\<rparr>" t]
  by (simp add: get_resume_def fresh_inv_def)

lemma fresh_inv_step: "fresh_inv p \<Longrightarrow> fresh_inv (step p e)"
  by (cases e) (auto simp: fresh_inv_get fresh_inv_get_body fresh_inv_get_resume
      fresh_inv_on_guard_idle fresh_inv_on_guard_close fresh_inv_guard_close fresh_inv_close
      fresh_inv_close_finish guard_aexit_def split: option.splits)

lemma fresh_inv_run: "fresh_inv p \<Longrightarrow> fresh_inv (run p es)"
  by (induction es arbitrary: p) (auto intro: fresh_inv_step)

lemma new_pool_inv:
  "new_pool key pub acct sz path tmo rate ty = Inr p \<Longrightarrow>
     cap_inv p \<and> idle_inv p \<and> fresh_inv p \<and> \<not> closed p \<and> guards p = []"
  by (auto simp: new_pool_def cap_inv_def idle_inv_def fresh_inv_def split: if_splits)

lemma W3Pool_init_inv:
  assumes "W3Pool_init api k provider path sz tmo rate = Inr p"
  shows "cap_inv p \<and> idle_inv p \<and> fresh_inv p \<and> \<not> closed p \<and> guards p = []"
  using assms new_pool_inv
  by (auto simp: W3Pool_init_def Let_def split: sum.splits if_splits option.splits)

lemma fold_close_frame:
  "closed (fold (\<lambda>i q. guard_close q i) xs p) = closed p
   \<and> waiters (fold (\<lambda>i q. guard_close q i) xs p) = waiters p
   \<and> notified (fold (\<lambda>i q. guard_close q i) xs p) = notified p
   \<and> next_id (fold (\<lambda>i q. guard_close q i) xs p) = next_id p
   \<and> nonce (fold (\<lambda>i q. guard_close q i) xs p) = nonce p"
  by (induction xs arbitrary: p) (auto simp: guard_close_def on_guard_close_def)

lemma fold_close_guards:
  "(\<forall>x\<in>set xs. x \<in> closed_guards p \<longrightarrow> x \<notin> set (guards p)) \<Longrightarrow>
     guards (fold (\<lambda>i q. guard_close q i) xs p) = filter (\<lambda>g. g \<notin> set xs) (guards p)
     \<and> closed_guards (fold (\<lambda>i q. guard_close q i) xs p) = closed_guards p \<union> set xs"
proof (induction xs arbitrary: p)
  case Nil
  then show ?case by simp
next
  case (Cons x xs)
  let ?p = "guard_close p x"
  have g: "guards ?p = filter (\<lambda>g. x \<noteq> g) (guards p)"
  proof (cases "x \<in> set (guards p)")
    case True
    with Cons.prems show ?thesis
      by (simp add: guard_close_def on_guard_close_def removeAll_filter_not_eq)
  next
    case False
    then have "filter (\<lambda>g. x \<noteq> g) (guards p) = guards p"
      by (intro filter_True) auto
    with False show ?thesis
      by (simp add: guard_close_def on_guard_close_def)
  qed
  have c: "closed_guards ?p = insert x (closed_guards p)"
    by (auto simp: guard_close_def on_guard_close_def)
  have "\<forall>y\<in>set xs. y \<in> closed_guards ?p \<longrightarrow> y \<notin> set (guards ?p)"
    using Cons.prems by (auto simp: g c)
  from Cons.IH [OF this] show ?case
    by (auto simp: g c intro!: filter_cong)
qed

lemma closed_inv_step: "closed_inv p \<Longrightarrow> closed_inv (step p e)"
  by (cases e) (auto simp: closed_inv_def pool_defs close_def fold_close_frame
      split: option.splits list.splits)

lemma closed_inv_run: "closed_inv p \<Longrightarrow> closed_inv (run p es)"
  by (induction es arbitrary: p) (auto intro: closed_inv_step)

lemma closed_step: "closed p \<Longrightarrow> closed (step p e)"
  by (cases e) (auto simp: pool_defs close_def split: option.splits list.splits)

lemma closed_run: "closed p \<Longrightarrow> closed (run p es)"
  by (induction es arbitrary: p) (auto intro: closed_step)

lemma gone_guard_close: "gone i p \<Longrightarrow> gone i (guard_close p j)"
  by (auto simp: gone_def guard_close_def on_guard_close_def dest: notin_set_remove1)

lemma gone_fold_close: "gone i p \<Longrightarrow> gone i (fold (\<lambda>j q. guard_close q j) xs p)"
  by (induction xs arbitrary: p) (auto intro: gone_guard_close)

lemma gone_close: "gone i p \<Longrightarrow> gone i (close p)"
  using gone_fold_close [of i p "guards p"]
  by (simp add: close_def close_finish_def notify_all_def gone_def)

lemma gone_on_guard_idle: "gone i p \<Longrightarrow> gone i (on_guard_idle p j)"
  using set_tl_subset [of "idle_pool p @ [j]"]
  by (auto simp: gone_def on_guard_idle_def notify_def deque_append_def)

lemma gone_step: "gone i p \<Longrightarrow> gone i (step p e)"
proof (cases e)
  case Close
  then show "gone i p \<Longrightarrow> gone i (step p e)" by (simp add: gone_close)
next
  case (OnGuardIdle j)
  then show "gone i p \<Longrightarrow> gone i (step p e)" by (simp add: gone_on_guard_idle)
next
  case (GuardClose j)
  then show "gone i p \<Longrightarrow> gone i (step p e)" by (simp add: gone_guard_close)
next
  case (GuardExit j x)
  then show "gone i p \<Longrightarrow> gone i (step p e)"
    by (simp add: guard_aexit_def gone_guard_close gone_on_guard_idle split: option.splits)
next
  case (OnGuardClose j)
  then show "gone i p \<Longrightarrow> gone i (step p e)"
    by (auto simp: gone_def on_guard_close_def dest: notin_set_remove1)
next
  case (Get t x)
  then show "gone i p \<Longrightarrow> gone i (step p e)"
    by (auto simp: gone_def get_def get_body_def get_wait_def split: option.splits list.splits)
next
  case (GetBody t x)
  then show "gone i p \<Longrightarrow> gone i (step p e)"
    by (auto simp: gone_def get_body_def get_wait_def split: option.splits list.splits)
next
  case (Resume t)
  then show "gone i p \<Longrightarrow> gone i (step p e)"
    by (auto simp: gone_def get_resume_def get_wait_def split: option.splits list.splits)
next
  case CloseFinish
  then show "gone i p \<Longrightarrow> gone i (step p e)"
    by (simp add: gone_def close_finish_def notify_all_def)
qed

lemma gone_run: "gone i p \<Longrightarrow> gone i (run p es)"
  by (induction es arbitrary: p) (auto intro: gone_step)

lemma gone_not_got:
  "gone i p \<Longrightarrow> fst (get p t x) \<noteq> Guard i \<and> fst (get_body p t x) \<noteq> Guard i
     \<and> fst (get_resume p t) \<noteq> Guard i"
  by (auto simp: gone_def get_def get_body_def get_resume_def get_wait_def
      split: option.splits list.splits)

lemma example_key_bytes:
  "bytes_fromhex example_key =
     Inr [76, 8, 131, 166, 145, 2, 147, 125, 98, 49, 71, 27, 93, 187, 98, 4,
          254, 81, 41, 97, 112, 130, 121, 42, 228, 104, 208, 26, 63, 54, 35, 24]"
  by code_simp

lemma example_key_hex: "\<forall>c\<in>set example_key. c \<in> set ''0123456789abcdefABCDEF''"
  by code_simp

lemma nonce_text_matches: "invalid_nonce_pattern_search ''Nonce too low''"
  by code_simp

lemma other_text_no_match: "\<not> invalid_nonce_pattern_search ''insufficient funds''"
  by code_simp

lemma example_pool_init:
  "W3Pool_init example_api example_key False (Some ''http://localhost:8545'') (int n) 10 10
     = Inr (example_pool n)"
  using example_key_bytes
  by (simp add: W3Pool_init_def example_api_def example_pool_def new_pool_def example_key_def)


lemma W3Pool_init_size:
  assumes "W3Pool_init api k provider path sz tmo rate = Inr p"
  shows "pool_size p = (if provider then 1 else nat sz)"
  using assms
  by (auto simp: W3Pool_init_def new_pool_def Let_def split: sum.splits if_splits option.splits)

lemma get_body_satisfied:
  assumes "get_body p t x = (Guard g, q)"
  shows "(idle_pool p = g # idle_pool q \<and> guards q = guards p \<and> g \<in> set (guards p))
       \<or> (idle_pool p = [] \<and> length (guards p) < pool_size p \<and> g = next_id p
          \<and> set (guards q) = insert g (set (guards p)) \<and> idle_pool q = [])"
  using assms
  by (auto simp: get_body_def get_wait_def split: if_splits option.splits list.splits)

lemma get_satisfied:
  assumes "get p t x = (Guard g, q)"
  shows "(idle_pool p = g # idle_pool q \<and> guards q = guards p \<and> g \<in> set (guards p))
       \<or> (idle_pool p = [] \<and> length (guards p) < pool_size p \<and> g = next_id p
          \<and> set (guards q) = insert g (set (guards p)) \<and> idle_pool q = [])"
proof -
  from assms have "get_body p t x = (Guard g, q)"
    by (simp add: get_def split: if_splits)
  then show ?thesis by (rule get_body_satisfied)
qed

lemma get_resume_satisfied:
  assumes "get_resume p t = (Guard g, q)"
  shows "idle_pool p = g # idle_pool q \<and> guards q = guards p \<and> g \<in> set (guards p)"
  using assms
  by (auto simp: get_resume_def get_wait_def split: if_splits option.splits list.splits)

text \<open>
  C3, as amended. For a pool built by \<open>W3Pool_init\<close> and every sequence \<open>es\<close> of
  \<open>get\<close>, resumption of a waiting \<open>get\<close>, \<open>on_guard_idle\<close>, \<open>on_guard_close\<close>, guard
  close, guard scope exit and pool \<open>close\<close>: the guard table never holds more guards
  than the pool size, which is the configured size (1 for an injected provider); a
  \<open>get\<close> (whether its body follows its assertion at once or runs later) returns a
  guard only by popping the head of the idle queue or, with the idle queue empty and
  the guard table strictly below the pool size, by making the guard with the next
  id. Every id in the idle queue is in the guard table provided
  every release in the sequence is orderly, that is, no guard is released while it
  is in the idle queue already.
\<close>

theorem pool_capacity_invariant:
  assumes "W3Pool_init api k provider path sz tmo rate = Inr p"
  shows "length (guards (run p es)) \<le> pool_size p
       \<and> pool_size p = (if provider then 1 else nat sz)
       \<and> (orderly p es \<longrightarrow> set (idle_pool (run p es)) \<subseteq> set (guards (run p es)))
       \<and> (\<forall>t x g q. get (run p es) t x = (Guard g, q) \<longrightarrow>
             (idle_pool (run p es) = g # idle_pool q \<and> guards q = guards (run p es)
                \<and> g \<in> set (guards (run p es)))
           \<or> (idle_pool (run p es) = [] \<and> length (guards (run p es)) < pool_size p
                \<and> g = next_id (run p es)
                \<and> set (guards q) = insert g (set (guards (run p es)))))
       \<and> (\<forall>t x g q. get_body (run p es) t x = (Guard g, q) \<longrightarrow>
             (idle_pool (run p es) = g # idle_pool q \<and> guards q = guards (run p es)
                \<and> g \<in> set (guards (run p es)))
           \<or> (idle_pool (run p es) = [] \<and> length (guards (run p es)) < pool_size p
                \<and> g = next_id (run p es)
                \<and> set (guards q) = insert g (set (guards (run p es)))))
       \<and> (\<forall>t g q. get_resume (run p es) t = (Guard g, q) \<longrightarrow>
             idle_pool (run p es) = g # idle_pool q \<and> guards q = guards (run p es)
               \<and> g \<in> set (guards (run p es)))"
proof -
  from W3Pool_init_inv [OF assms] have c: "cap_inv p" and i: "idle_inv p" by simp_all
  have "length (guards (run p es)) \<le> pool_size p"
    using cap_inv_run [OF c, of es] by (simp add: cap_inv_def)
  moreover have "orderly p es \<longrightarrow> set (idle_pool (run p es)) \<subseteq> set (guards (run p es))"
    using idle_inv_run [OF i, of es] by (simp add: idle_inv_def)
  moreover have "\<forall>t x g q. get (run p es) t x = (Guard g, q) \<longrightarrow>
             (idle_pool (run p es) = g # idle_pool q \<and> guards q = guards (run p es)
                \<and> g \<in> set (guards (run p es)))
           \<or> (idle_pool (run p es) = [] \<and> length (guards (run p es)) < pool_size p
                \<and> g = next_id (run p es)
                \<and> set (guards q) = insert g (set (guards (run p es))))"
    using get_satisfied [of "run p es"] by fastforce
  moreover have "\<forall>t x g q. get_body (run p es) t x = (Guard g, q) \<longrightarrow>
             (idle_pool (run p es) = g # idle_pool q \<and> guards q = guards (run p es)
                \<and> g \<in> set (guards (run p es)))
           \<or> (idle_pool (run p es) = [] \<and> length (guards (run p es)) < pool_size p
                \<and> g = next_id (run p es)
                \<and> set (guards q) = insert g (set (guards (run p es))))"
    using get_body_satisfied [of "run p es"] by fastforce
  moreover have "\<forall>t g q. get_resume (run p es) t = (Guard g, q) \<longrightarrow>
             idle_pool (run p es) = g # idle_pool q \<and> guards q = guards (run p es)
               \<and> g \<in> set (guards (run p es))"
    using get_resume_satisfied [of "run p es"] by blast
  ultimately show ?thesis using W3Pool_init_size [OF assms] by blast
qed

theorem pool_capacity_invariant_witness:
  "length (guards (run (example_pool 2)
       [Get 0 None, Get 1 None, Get 2 None, GuardExit 1 None, Resume 2])) \<le> 2
   \<and> set (idle_pool (run (example_pool 2)
       [Get 0 None, Get 1 None, Get 2 None, GuardExit 1 None, Resume 2]))
       \<subseteq> set (guards (run (example_pool 2)
       [Get 0 None, Get 1 None, Get 2 None, GuardExit 1 None, Resume 2]))
   \<and> get (run (example_pool 2) [Get 0 None, GuardExit 1 None]) 1 None
       = (Guard 1, run (example_pool 2) [Get 0 None, GuardExit 1 None, Get 1 None])
   \<and> fst (get (run (example_pool 2) [Get 0 None]) 1 None) = Guard 2
   \<and> fst (get (run (example_pool 2) [Get 0 None, Get 1 None]) 2 None) = Waiting"
  using pool_capacity_invariant [OF example_pool_init [of 2],
      of "[Get 0 None, Get 1 None, Get 2 None, GuardExit 1 None, Resume 2]"]
  by (simp add: example_pool_def pool_defs)

text \<open>
  The claim C3 as stated fails for the idle queue: after \<open>get\<close>, two calls of
  \<open>on_guard_idle\<close> for the guard and \<open>on_guard_close\<close> for it, in a pool of size 2,
  the id 1 is in the idle queue and not in the guard table, and the next \<open>get\<close>
  raises \<open>KeyError\<close>.
\<close>

theorem pool_capacity_invariant_counterexample:
  "idle_pool (run (example_pool 2)
       [Get 0 None, OnGuardIdle 1, OnGuardIdle 1, OnGuardClose 1]) = [1]
   \<and> guards (run (example_pool 2)
       [Get 0 None, OnGuardIdle 1, OnGuardIdle 1, OnGuardClose 1]) = []
   \<and> fst (get (run (example_pool 2)
       [Get 0 None, OnGuardIdle 1, OnGuardIdle 1, OnGuardClose 1]) 1 None)
       = Raised (Exc KeyError ''1'')"
  by (simp add: example_pool_def pool_defs)

text \<open>
  C5, as amended. In a pool built by \<open>W3Pool_init\<close> and run through an orderly
  sequence, let the body of the scope of a live guard \<open>i\<close> raise a \<open>ConnectionClosed\<close>
  error. Then the guard closes itself: its id leaves the guard table, is not in the
  idle queue, its closed flag is set, and whatever happens to the pool afterwards,
  the id is never in the guard table or the idle queue again and no \<open>get\<close> returns
  it. The error is suppressed by the scope exit: the \<open>async with\<close> statement ends
  normally, without a value, and the error does not reach the caller.
\<close>

theorem connection_closed_guard_evicted:
  fixes body :: "exc + 'a"
  assumes init: "W3Pool_init api k provider path sz tmo rate = Inr p"
      and ord: "orderly p es"
      and live: "i \<in> set (guards (run p es))"
      and body: "body = Inl e"
      and cc: "exc_cls e = ConnectionClosed"
  shows "fst (async_with_guard (run p es) i body) = Inr None
       \<and> i \<notin> set (guards (snd (async_with_guard (run p es) i body)))
       \<and> i \<notin> set (idle_pool (snd (async_with_guard (run p es) i body)))
       \<and> i \<in> closed_guards (snd (async_with_guard (run p es) i body))
       \<and> (\<forall>es' t x.
             i \<notin> set (guards (run (snd (async_with_guard (run p es) i body)) es'))
           \<and> i \<notin> set (idle_pool (run (snd (async_with_guard (run p es) i body)) es'))
           \<and> fst (get (run (snd (async_with_guard (run p es) i body)) es') t x) \<noteq> Guard i
           \<and> fst (get_body (run (snd (async_with_guard (run p es) i body)) es') t x)
                \<noteq> Guard i
           \<and> fst (get_resume (run (snd (async_with_guard (run p es) i body)) es') t)
                \<noteq> Guard i)"
proof -
  let ?q = "run p es"
  let ?r = "async_with_guard ?q i body"
  from W3Pool_init_inv [OF init] have "idle_inv p" and "fresh_inv p" by simp_all
  then have ii: "idle_inv ?q" and fi: "fresh_inv ?q"
    using ord by (simp_all add: idle_inv_run fresh_inv_run)
  from fi live have nc: "i \<notin> closed_guards ?q" and lt: "i < next_id ?q"
    by (auto simp: fresh_inv_def)
  have res: "fst ?r = Inr None"
    using cc body by (simp add: async_with_guard_def guard_aexit_def)
  have st: "snd ?r = (on_guard_close ?q i)\<lparr>closed_guards := insert i (closed_guards ?q)\<rparr>"
    using cc nc body by (simp add: async_with_guard_def guard_aexit_def guard_close_def)
  from ii have d: "distinct (idle_pool ?q)" by (simp add: idle_inv_def)
  have g: "gone i (snd ?r)"
    using live lt d by (simp add: st gone_def on_guard_close_def)
  have cl: "i \<in> closed_guards (snd ?r)" by (simp add: st)
  have later: "\<forall>es' t x.
             i \<notin> set (guards (run (snd ?r) es'))
           \<and> i \<notin> set (idle_pool (run (snd ?r) es'))
           \<and> fst (get (run (snd ?r) es') t x) \<noteq> Guard i
           \<and> fst (get_body (run (snd ?r) es') t x) \<noteq> Guard i
           \<and> fst (get_resume (run (snd ?r) es') t) \<noteq> Guard i"
  proof (intro allI)
    fix es' t x
    from gone_run [OF g, of es'] have g': "gone i (run (snd ?r) es')" .
    with gone_not_got [OF g', of t x] show
      "i \<notin> set (guards (run (snd ?r) es'))
           \<and> i \<notin> set (idle_pool (run (snd ?r) es'))
           \<and> fst (get (run (snd ?r) es') t x) \<noteq> Guard i
           \<and> fst (get_body (run (snd ?r) es') t x) \<noteq> Guard i
           \<and> fst (get_resume (run (snd ?r) es') t) \<noteq> Guard i"
      by (simp add: gone_def)
  qed
  from res g cl later show ?thesis by (simp add: gone_def)
qed

theorem connection_closed_guard_evicted_witness:
  "fst (async_with_guard (run (example_pool 2) [Get 0 None, Get 1 None]) 1
          (Inl (Exc ConnectionClosed ''no close frame received or sent'') :: exc + unit)) = Inr None
   \<and> guards (snd (async_with_guard (run (example_pool 2) [Get 0 None, Get 1 None]) 1
          (Inl (Exc ConnectionClosed ''no close frame received or sent'') :: exc + unit))) = [2]
   \<and> fst (get (run (snd (async_with_guard (run (example_pool 2) [Get 0 None, Get 1 None]) 1
          (Inl (Exc ConnectionClosed ''no close frame received or sent'') :: exc + unit))) [GuardExit 1 None]) 2 None) = Guard 3"
  using connection_closed_guard_evicted [OF example_pool_init [of 2],
      where es = "[Get 0 None, Get 1 None]" and i = 1
        and e = "Exc ConnectionClosed ''no close frame received or sent''"
        and body = "Inl (Exc ConnectionClosed ''no close frame received or sent'') :: exc + unit"]
  by (simp add: example_pool_def pool_defs async_with_guard_def)

text \<open>
  The claim C5 as stated fails in its last part: the \<open>async with\<close> statement whose
  body raises \<open>ConnectionClosed\<close> ends normally; the error is not raised to the
  caller.
\<close>

theorem connection_closed_guard_evicted_counterexample:
  "fst (async_with_guard (run (example_pool 2) [Get 0 None]) 1
          (Inl (Exc ConnectionClosed ''no close frame received or sent'') :: exc + unit)) = Inr None
   \<and> fst (async_with_guard (run (example_pool 2) [Get 0 None]) 1
          (Inl (Exc ConnectionClosed ''no close frame received or sent'') :: exc + unit)) \<noteq> Inl (Exc ConnectionClosed ''no close frame received or sent'')"
  by (simp add: example_pool_def pool_defs async_with_guard_def)

lemma run_append: "run p (xs @ ys) = run (run p xs) ys"
  by (induction xs arbitrary: p) auto

lemma run_guard_closes: "run p (map GuardClose xs) = fold (\<lambda>i q. guard_close q i) xs p"
  by (induction xs arbitrary: p) auto

lemma close_guard_events_alone: "close_guard_events xs [] = map GuardClose xs"
  by (induction xs) auto

lemma close_interleaved_alone: "close_interleaved p [] = close p"
  by (simp add: close_interleaved_def close_def close_guard_events_alone run_guard_closes)

lemma shut_fold_close: "shut i p \<Longrightarrow> shut i (fold (\<lambda>j q. guard_close q j) xs p)"
  by (induction xs arbitrary: p) (auto simp: shut_def guard_close_def on_guard_close_def)

lemma shut_step: "shut i p \<Longrightarrow> shut i (step p e)"
proof (cases e)
  case Close
  then show "shut i p \<Longrightarrow> shut i (step p e)"
    using shut_fold_close [of i p "guards p"]
    by (simp add: close_def close_finish_def notify_all_def shut_def)
qed (auto simp: shut_def pool_defs split: option.splits list.splits)

lemma shut_run: "shut i p \<Longrightarrow> shut i (run p es)"
  by (induction es arbitrary: p) (auto intro: shut_step)

lemma shut_guard_close:
  assumes "fresh_inv p" and "i < next_id p"
  shows "shut i (guard_close p i)"
  using assms by (auto simp: shut_def fresh_inv_def guard_close_def on_guard_close_def)

lemma next_id_fold_close: "next_id (fold (\<lambda>j q. guard_close q j) xs p) = next_id p"
  by (simp add: fold_close_frame)

lemma next_id_step: "next_id p \<le> next_id (step p e)"
proof (cases e)
  case Close
  then show ?thesis
    by (simp add: close_def close_finish_def notify_all_def next_id_fold_close)
qed (auto simp: pool_defs split: option.splits list.splits)

lemma next_id_run: "next_id p \<le> next_id (run p es)"
proof (induction es arbitrary: p)
  case Nil
  then show ?case by simp
next
  case (Cons e es)
  from next_id_step [of p e] Cons.IH [of "step p e"] show ?case by simp
qed

lemma close_guard_events_shut:
  assumes "fresh_inv p" and "\<forall>i\<in>set xs. i < next_id p"
  shows "\<forall>i\<in>set xs. shut i (run p (close_guard_events xs ess))"
  using assms
proof (induction xs arbitrary: p ess)
  case Nil
  then show ?case by simp
next
  case (Cons j xs)
  let ?es0 = "case ess of [] \<Rightarrow> [] | es # _ \<Rightarrow> es"
  let ?p1 = "run p ?es0"
  let ?p2 = "guard_close ?p1 j"
  let ?rest = "close_guard_events xs (tl ess)"
  have r: "run p (close_guard_events (j # xs) ess) = run ?p2 ?rest"
    by (simp add: run_append)
  have f1: "fresh_inv ?p1" using Cons.prems(1) by (rule fresh_inv_run)
  have le1: "next_id p \<le> next_id ?p1" by (rule next_id_run)
  with Cons.prems(2) have j1: "j < next_id ?p1" by auto
  have sj: "shut j ?p2" using f1 j1 by (rule shut_guard_close)
  have f2: "fresh_inv ?p2" using f1 by (rule fresh_inv_guard_close)
  have "next_id ?p2 = next_id ?p1" by (simp add: guard_close_def on_guard_close_def)
  with le1 Cons.prems(2) have "\<forall>i\<in>set xs. i < next_id ?p2" by auto
  from Cons.IH [OF f2 this] have rest: "\<forall>i\<in>set xs. shut i (run ?p2 ?rest)" .
  from shut_run [OF sj] have "shut j (run ?p2 ?rest)" .
  with rest show ?case unfolding r by simp
qed

lemma guards_fold_close_subset:
  "set (guards (fold (\<lambda>j q. guard_close q j) xs p)) \<subseteq> set (guards p)"
proof (induction xs arbitrary: p)
  case Nil
  then show ?case by simp
next
  case (Cons x xs)
  have "set (guards (guard_close p x)) \<subseteq> set (guards p)"
    by (auto simp: guard_close_def on_guard_close_def)
  with Cons.IH [of "guard_close p x"] show ?case by auto
qed

lemma guards_shrink_step:
  assumes "\<not> acquires e"
  shows "set (guards (step p e)) \<subseteq> set (guards p)"
proof (cases e)
  case Close
  then show ?thesis
    using guards_fold_close_subset [of "guards p" p]
    by (simp add: close_def close_finish_def notify_all_def)
qed (use assms in \<open>auto simp: pool_defs split: option.splits list.splits\<close>)

lemma guards_shrink_run:
  "\<forall>e\<in>set es. \<not> acquires e \<Longrightarrow> set (guards (run p es)) \<subseteq> set (guards p)"
proof (induction es arbitrary: p)
  case Nil
  then show ?case by simp
next
  case (Cons e es)
  from Cons.prems have "\<not> acquires e" and "\<forall>e\<in>set es. \<not> acquires e" by simp_all
  with guards_shrink_step [of e p] Cons.IH [of "step p e"] show ?case by auto
qed

lemma guards_closed_step:
  assumes "closed p" and "\<not> in_flight e"
  shows "set (guards (step p e)) \<subseteq> set (guards p)"
proof (cases e)
  case (Get t x)
  with assms show ?thesis by (simp add: get_def)
next
  case (GetBody t x)
  with assms show ?thesis by simp
qed (use guards_shrink_step [of e p] in auto)

lemma guards_closed_run:
  "closed p \<Longrightarrow> \<forall>e\<in>set es. \<not> in_flight e \<Longrightarrow> set (guards (run p es)) \<subseteq> set (guards p)"
proof (induction es arbitrary: p)
  case Nil
  then show ?case by simp
next
  case (Cons e es)
  from Cons.prems have c: "closed (step p e)" by (simp add: closed_step)
  from Cons.prems have "\<forall>e\<in>set es. \<not> in_flight e" by simp
  from Cons.IH [OF c this] guards_closed_step [of p e] Cons.prems show ?case by auto
qed

lemma close_guard_events_quiet:
  assumes "\<forall>es\<in>set ess. \<forall>e\<in>set es. \<not> acquires e"
  shows "\<forall>e\<in>set (close_guard_events xs ess). \<not> acquires e"
  using assms
proof (induction xs arbitrary: ess)
  case Nil
  then show ?case by (cases ess) auto
next
  case (Cons x xs)
  have "\<forall>es\<in>set (tl ess). \<forall>e\<in>set es. \<not> acquires e"
    using Cons.prems by (cases ess) auto
  from Cons.IH [OF this] Cons.prems show ?case by (cases ess) auto
qed

lemma notified_step:
  assumes "t \<in> set (notified p)" and "e \<noteq> Resume t"
  shows "t \<in> set (notified (step p e))"
proof (cases e)
  case (Resume u)
  with assms have "u \<noteq> t" by auto
  with assms(1) have "t \<in> set (remove1 u (notified p))" by simp
  with Resume assms(1) show ?thesis
    by (auto simp: get_resume_def get_wait_def split: list.splits)
next
  case Close
  with assms(1) show ?thesis
    by (simp add: close_def close_finish_def notify_all_def fold_close_frame)
qed (use assms(1) in \<open>auto simp: pool_defs split: option.splits list.splits\<close>)

lemma notified_run:
  "t \<in> set (notified p) \<Longrightarrow> Resume t \<notin> set es \<Longrightarrow> t \<in> set (notified (run p es))"
proof (induction es arbitrary: p)
  case Nil
  then show ?case by simp
next
  case (Cons e es)
  from Cons.prems have "e \<noteq> Resume t" and "Resume t \<notin> set es" by auto
  with notified_step [OF Cons.prems(1), of e] Cons.IH [of "step p e"] show ?case by simp
qed

lemma resume_closed:
  assumes "closed p" and "t \<in> set (notified p)"
  shows "fst (get_resume p t) = Raised (Exc ValueError ''w3 pool is closed'')"
  using assms by (simp add: get_resume_def get_wait_def)

text \<open>
  C6, as amended. Let \<open>close\<close> be called in a state \<open>q\<close> of a pool built by
  \<open>W3Pool_init\<close> that is not closed, with whatever operations \<open>ess\<close> of other tasks at
  its suspension points, and let \<open>r\<close> be the state it leaves. Then the pool is closed;
  no task is waiting, and every task that was waiting when the pool was marked
  closed has been notified; every guard that was in the guard table when \<open>close\<close> was
  called has its closed flag set and is out of the guard table. In every later
  state, after whatever further operations: the pool is closed and no task waits; a
  notified task raises the pool-closed \<open>ValueError\<close> when it resumes, and stays
  notified until it does; a call of \<open>get\<close> fails at once with the pool-closed
  assertion and leaves the pool as it is; the guards that \<open>close\<close> has closed stay
  closed and out of the guard table, and no \<open>get\<close> returns them; another \<open>close\<close>
  changes nothing. The guard table is empty after \<open>close\<close> and stays empty provided
  that no call or body of \<open>get\<close> runs at the suspension points of \<open>close\<close>, and no
  body of a \<open>get\<close> whose assertion has passed before the pool was closed runs
  afterwards. With no operation at its suspension points, the call is \<open>close\<close> as
  defined.
\<close>

theorem close_drains_pool:
  assumes init: "W3Pool_init api k provider path sz tmo rate = Inr p"
      and q: "q = run p es"
      and opn: "\<not> closed q"
      and r: "r = close_interleaved q ess"
  shows "closed r
       \<and> waiters r = []
       \<and> (\<forall>t\<in>set (waiters (run q (close_guard_events (guards q) ess))). t \<in> set (notified r))
       \<and> (\<forall>i\<in>set (guards q). i \<in> closed_guards r \<and> i \<notin> set (guards r))
       \<and> (\<forall>es'.
             closed (run r es')
           \<and> waiters (run r es') = []
           \<and> (\<forall>t. t \<in> set (notified (run r es')) \<longrightarrow>
                  fst (get_resume (run r es') t) = Raised (Exc ValueError ''w3 pool is closed''))
           \<and> (\<forall>t. t \<in> set (notified r) \<and> Resume t \<notin> set es' \<longrightarrow>
                  t \<in> set (notified (run r es')))
           \<and> (\<forall>t x. get (run r es') t x =
                  (Raised (Exc AssertionError ''w3 pool is closed''), run r es'))
           \<and> (\<forall>i\<in>set (guards q).
                  i \<in> closed_guards (run r es') \<and> i \<notin> set (guards (run r es'))
                \<and> (\<forall>t x. fst (get_body (run r es') t x) \<noteq> Guard i))
           \<and> close (run r es') = run r es'
           \<and> (\<forall>ess'. close_interleaved (run r es') ess' = run r es'))
       \<and> ((\<forall>es0\<in>set ess. \<forall>e\<in>set es0. \<not> acquires e) \<longrightarrow>
             guards r = []
           \<and> (\<forall>es'. (\<forall>e\<in>set es'. \<not> in_flight e) \<longrightarrow> guards (run r es') = []))
       \<and> close_interleaved q [] = close q"
proof -
  let ?evs = "close_guard_events (guards q) ess"
  let ?m = "run q ?evs"
  from W3Pool_init_inv [OF init] have f0: "fresh_inv p" by simp
  have fq: "fresh_inv q" unfolding q using f0 by (rule fresh_inv_run)
  have rm: "r = close_finish ?m" using r opn by (simp add: close_interleaved_def)
  have cl: "closed r" by (simp add: rm close_finish_def notify_all_def)
  have wt: "waiters r = []" by (simp add: rm close_finish_def notify_all_def)
  have nt: "\<forall>t\<in>set (waiters ?m). t \<in> set (notified r)"
    by (simp add: rm close_finish_def notify_all_def)
  have lt: "\<forall>i\<in>set (guards q). i < next_id q" using fq by (simp add: fresh_inv_def)
  from close_guard_events_shut [OF fq lt, of ess]
  have sm: "\<forall>i\<in>set (guards q). shut i ?m" .
  have sr: "\<forall>i\<in>set (guards q). shut i r"
    using sm by (simp add: rm shut_def close_finish_def notify_all_def)
  have snap: "\<forall>i\<in>set (guards q). i \<in> closed_guards r \<and> i \<notin> set (guards r)"
    using sr by (simp add: shut_def)
  have ci: "closed_inv r" using wt by (simp add: closed_inv_def)
  have later: "\<forall>es'.
             closed (run r es')
           \<and> waiters (run r es') = []
           \<and> (\<forall>t. t \<in> set (notified (run r es')) \<longrightarrow>
                  fst (get_resume (run r es') t) = Raised (Exc ValueError ''w3 pool is closed''))
           \<and> (\<forall>t. t \<in> set (notified r) \<and> Resume t \<notin> set es' \<longrightarrow>
                  t \<in> set (notified (run r es')))
           \<and> (\<forall>t x. get (run r es') t x =
                  (Raised (Exc AssertionError ''w3 pool is closed''), run r es'))
           \<and> (\<forall>i\<in>set (guards q).
                  i \<in> closed_guards (run r es') \<and> i \<notin> set (guards (run r es'))
                \<and> (\<forall>t x. fst (get_body (run r es') t x) \<noteq> Guard i))
           \<and> close (run r es') = run r es'
           \<and> (\<forall>ess'. close_interleaved (run r es') ess' = run r es')"
  proof (intro allI)
    fix es'
    let ?s = "run r es'"
    have c: "closed ?s" using cl by (rule closed_run)
    have "closed_inv ?s" using ci by (rule closed_inv_run)
    with c have w: "waiters ?s = []" by (simp add: closed_inv_def)
    have res: "\<forall>t. t \<in> set (notified ?s) \<longrightarrow>
                  fst (get_resume ?s t) = Raised (Exc ValueError ''w3 pool is closed'')"
      using c by (simp add: resume_closed)
    have keep: "\<forall>t. t \<in> set (notified r) \<and> Resume t \<notin> set es' \<longrightarrow> t \<in> set (notified ?s)"
      by (simp add: notified_run)
    have g: "\<forall>t x. get ?s t x = (Raised (Exc AssertionError ''w3 pool is closed''), ?s)"
      using c by (simp add: get_def)
    have sh: "\<forall>i\<in>set (guards q).
                  i \<in> closed_guards ?s \<and> i \<notin> set (guards ?s)
                \<and> (\<forall>t x. fst (get_body ?s t x) \<noteq> Guard i)"
    proof
      fix i assume "i \<in> set (guards q)"
      with sr have "shut i r" by simp
      then have s: "shut i ?s" by (rule shut_run)
      then have "\<forall>t x. fst (get_body ?s t x) \<noteq> Guard i"
        by (auto simp: shut_def get_body_def get_wait_def split: option.splits list.splits)
      with s show "i \<in> closed_guards ?s \<and> i \<notin> set (guards ?s)
                \<and> (\<forall>t x. fst (get_body ?s t x) \<noteq> Guard i)"
        by (simp add: shut_def)
    qed
    have idem: "close ?s = ?s \<and> (\<forall>ess'. close_interleaved ?s ess' = ?s)"
      using c by (simp add: close_def close_interleaved_def)
    from c w res keep g sh idem show
      "closed ?s
           \<and> waiters ?s = []
           \<and> (\<forall>t. t \<in> set (notified ?s) \<longrightarrow>
                  fst (get_resume ?s t) = Raised (Exc ValueError ''w3 pool is closed''))
           \<and> (\<forall>t. t \<in> set (notified r) \<and> Resume t \<notin> set es' \<longrightarrow>
                  t \<in> set (notified ?s))
           \<and> (\<forall>t x. get ?s t x =
                  (Raised (Exc AssertionError ''w3 pool is closed''), ?s))
           \<and> (\<forall>i\<in>set (guards q).
                  i \<in> closed_guards ?s \<and> i \<notin> set (guards ?s)
                \<and> (\<forall>t x. fst (get_body ?s t x) \<noteq> Guard i))
           \<and> close ?s = ?s
           \<and> (\<forall>ess'. close_interleaved ?s ess' = ?s)"
      by blast
  qed
  have quiet: "(\<forall>es0\<in>set ess. \<forall>e\<in>set es0. \<not> acquires e) \<longrightarrow>
             guards r = []
           \<and> (\<forall>es'. (\<forall>e\<in>set es'. \<not> in_flight e) \<longrightarrow> guards (run r es') = [])"
  proof
    assume a: "\<forall>es0\<in>set ess. \<forall>e\<in>set es0. \<not> acquires e"
    from close_guard_events_quiet [OF a, of "guards q"]
    have "\<forall>e\<in>set ?evs. \<not> acquires e" .
    then have "set (guards ?m) \<subseteq> set (guards q)" by (rule guards_shrink_run)
    moreover have "\<forall>i\<in>set (guards q). i \<notin> set (guards ?m)"
      using sm by (simp add: shut_def)
    ultimately have "\<forall>x. x \<notin> set (guards ?m)" by blast
    then have "guards ?m = []" by (cases "guards ?m") auto
    then have e: "guards r = []" by (simp add: rm close_finish_def notify_all_def)
    have "\<forall>es'. (\<forall>e\<in>set es'. \<not> in_flight e) \<longrightarrow> guards (run r es') = []"
    proof (intro allI impI)
      fix es' assume "\<forall>e\<in>set es'. \<not> in_flight e"
      with guards_closed_run [OF cl, of es'] e show "guards (run r es') = []" by simp
    qed
    with e show "guards r = []
           \<and> (\<forall>es'. (\<forall>e\<in>set es'. \<not> in_flight e) \<longrightarrow> guards (run r es') = [])" by simp
  qed
  from cl wt nt snap later quiet close_interleaved_alone [of q] show ?thesis by blast
qed

theorem close_drains_pool_witness:
  "closed (close_interleaved (run (example_pool 1) [Get 0 None, Get 1 None, Get 2 None])
             [[GuardExit 1 None]])
   \<and> guards (run (example_pool 1) [Get 0 None, Get 1 None, Get 2 None]) = [1]
   \<and> waiters (run (example_pool 1) [Get 0 None, Get 1 None, Get 2 None]) = [1, 2]
   \<and> guards (close_interleaved (run (example_pool 1) [Get 0 None, Get 1 None, Get 2 None])
             [[GuardExit 1 None]]) = []
   \<and> notified (close_interleaved (run (example_pool 1) [Get 0 None, Get 1 None, Get 2 None])
             [[GuardExit 1 None]]) = [1, 2]
   \<and> fst (get_resume (close_interleaved
             (run (example_pool 1) [Get 0 None, Get 1 None, Get 2 None])
             [[GuardExit 1 None]]) 2) = Raised (Exc ValueError ''w3 pool is closed'')
   \<and> fst (get (close_interleaved (run (example_pool 1) [Get 0 None, Get 1 None, Get 2 None])
             [[GuardExit 1 None]]) 3 None) = Raised (Exc AssertionError ''w3 pool is closed'')
   \<and> close (run (example_pool 1) [Get 0 None, Get 1 None, Get 2 None])
       = close_interleaved (run (example_pool 1) [Get 0 None, Get 1 None, Get 2 None]) []"
proof -
  have o: "\<not> closed (run (example_pool 1) [Get 0 None, Get 1 None, Get 2 None])"
    by (simp add: example_pool_def pool_defs)
  have "closed (close_interleaved (run (example_pool 1) [Get 0 None, Get 1 None, Get 2 None])
             [[GuardExit 1 None]])"
    by (rule close_drains_pool [OF example_pool_init [of 1] refl o refl, THEN conjunct1])
  then show ?thesis
    by (simp add: example_pool_def pool_defs close_interleaved_def close_def)
qed

text \<open>
  The claim C6 as stated fails for a \<open>get\<close> that is under way while \<open>close\<close> runs. In a
  pool of size 1 whose guard 1 is handed out, \<open>close\<close> closes guard 1; a task has
  called \<open>get\<close> in the meantime, its assertion has passed since the pool is not
  marked closed yet, and its body runs once guard 1 has left the guard table: it
  builds guard 2. Then \<open>close\<close> marks the pool closed. The closed pool holds guard 2,
  which is handed out and which nothing has closed.
\<close>

theorem close_drains_pool_counterexample:
  "closed (close_interleaved (run (example_pool 1) [Get 0 None]) [[], [GetBody 1 None]])
   \<and> guards (run (example_pool 1) [Get 0 None]) = [1]
   \<and> guards (close_interleaved (run (example_pool 1) [Get 0 None]) [[], [GetBody 1 None]]) = [2]
   \<and> 2 \<notin> closed_guards
         (close_interleaved (run (example_pool 1) [Get 0 None]) [[], [GetBody 1 None]])"
  by (simp add: example_pool_def pool_defs close_interleaved_def)

text \<open>
  C2. For an open pool, let \<open>n\<close> be the cached nonce or, when none is cached, the
  pending transaction count fetched from the remote node. \<open>with_nonce\<close> gives \<open>n\<close> to
  the caller's scope. If the scope ends normally, the cached nonce becomes \<open>n + 1\<close>.
  If the scope raises an exception whose text matches the nonce pattern, the cached
  nonce becomes absent and the same exception is raised, and the next acquisition
  gives its scope the freshly fetched count \<open>m\<close>. If the scope raises an exception
  whose text does not match, the cached nonce stays \<open>n\<close> and the same exception is
  raised.
\<close>

theorem with_nonce_cases:
  fixes scope :: "nat \<Rightarrow> exc + 'a" and scope' :: "nat \<Rightarrow> exc + 'b"
  assumes "\<not> closed p"
      and "(case nonce p of None \<Rightarrow> get_transaction_count | Some c \<Rightarrow> Inr c) = Inr n"
  shows "(\<forall>v. scope n = Inr v \<longrightarrow>
            with_nonce p get_transaction_count scope = (Inr v, p\<lparr>nonce := Some (n + 1)\<rparr>))
       \<and> (\<forall>e. scope n = Inl e \<and> is_Exception (exc_cls e)
                \<and> invalid_nonce_pattern_search (exc_str e) \<longrightarrow>
            with_nonce p get_transaction_count scope = (Inl e, p\<lparr>nonce := None\<rparr>)
            \<and> fst (with_nonce (snd (with_nonce p get_transaction_count scope)) (Inr m) scope')
                = scope' m)
       \<and> (\<forall>e. scope n = Inl e \<and> \<not> invalid_nonce_pattern_search (exc_str e) \<longrightarrow>
            with_nonce p get_transaction_count scope = (Inl e, p\<lparr>nonce := Some n\<rparr>))"
  using assms by (auto simp: with_nonce_def split: sum.splits)

theorem with_nonce_cases_witness:
  "with_nonce (example_pool 2) (Inr 7) (\<lambda>n. Inr (n * 2) :: exc + nat)
     = (Inr 14, (example_pool 2)\<lparr>nonce := Some 8\<rparr>)
   \<and> with_nonce ((example_pool 2)\<lparr>nonce := Some 8\<rparr>) (Inr 7)
        (\<lambda>n. Inl (Exc ValueError ''Nonce too low'') :: exc + nat)
     = (Inl (Exc ValueError ''Nonce too low''), (example_pool 2)\<lparr>nonce := None\<rparr>)
   \<and> with_nonce ((example_pool 2)\<lparr>nonce := Some 8\<rparr>) (Inr 7)
        (\<lambda>n. Inl (Exc ValueError ''insufficient funds'') :: exc + nat)
     = (Inl (Exc ValueError ''insufficient funds''), (example_pool 2)\<lparr>nonce := Some 8\<rparr>)"
  using with_nonce_cases [where p = "example_pool 2" and get_transaction_count = "Inr 7"
      and n = 7 and scope = "\<lambda>n. Inr (n * 2) :: exc + nat"
      and scope' = "\<lambda>n. Inr n :: exc + nat"]
    with_nonce_cases [where p = "(example_pool 2)\<lparr>nonce := Some 8\<rparr>"
      and get_transaction_count = "Inr 7"
      and n = 8 and scope = "\<lambda>n. Inl (Exc ValueError ''Nonce too low'') :: exc + nat"
      and scope' = "\<lambda>n. Inr n :: exc + nat"]
    with_nonce_cases [where p = "(example_pool 2)\<lparr>nonce := Some 8\<rparr>"
      and get_transaction_count = "Inr 7"
      and n = 8 and scope = "\<lambda>n. Inl (Exc ValueError ''insufficient funds'') :: exc + nat"
      and scope' = "\<lambda>n. Inr n :: exc + nat"]
    nonce_text_matches other_text_no_match
  by (simp add: example_pool_def)

lemma hex_not_prefixed:
  assumes "\<forall>c\<in>set k. c \<in> set ''0123456789abcdefABCDEF''"
  shows "\<not> startswith k ''0x''"
proof (cases k)
  case Nil
  then show ?thesis by simp
next
  case (Cons c cs)
  show ?thesis
  proof (cases cs)
    case Nil
    with Cons show ?thesis by simp
  next
    case (Cons d ds)
    with assms \<open>k = c # cs\<close> have "d \<in> set ''0123456789abcdefABCDEF''" by simp
    then have "d \<noteq> CHR ''x''" by auto
    with Cons \<open>k = c # cs\<close> show ?thesis by simp
  qed
qed

text \<open>
  C10. For every string \<open>k\<close> of hexadecimal digits, \<open>W3Pool_init\<close> gives the same
  result for \<open>"0x" + k\<close> and for \<open>k\<close>: the same error, or the same pool, with the same
  private key, public key and account.
\<close>

theorem privkey_prefix_normalised:
  assumes "\<forall>c\<in>set k. c \<in> set ''0123456789abcdefABCDEF''"
  shows "W3Pool_init api (''0x'' @ k) provider path sz tmo rate
           = W3Pool_init api k provider path sz tmo rate"
  using hex_not_prefixed [OF assms] by (simp add: W3Pool_init_def)

theorem privkey_prefix_normalised_witness:
  "W3Pool_init example_api (''0x'' @ example_key) False (Some ''http://localhost:8545'') 5 10 10
     = W3Pool_init example_api example_key False (Some ''http://localhost:8545'') 5 10 10
   \<and> W3Pool_init example_api example_key False (Some ''http://localhost:8545'') 5 10 10
     = Inr (example_pool 5)"
  using privkey_prefix_normalised [where k = example_key and api = example_api
      and provider = False and path = "Some ''http://localhost:8545''" and sz = 5
      and tmo = 10 and rate = 10]
    example_pool_init [of 5] example_key_hex
  by simp

end
